theory Spec2Isabelle
  imports Main
begin

section \<open>The dynamic array \<open>nexus::vector<T>\<close> of \<open>src/vector.h\<close>\<close>

text \<open>
  The class owns a heap array through three raw pointers: \<open>first\<close> (start of the
  buffer), \<open>last\<close> (one past the last live element) and \<open>end_ptr\<close> (one past the
  last slot). The model keeps the three pointers and an explicit store of arrays, so that
  buffer identity, the null pointer, a zero-length array, a released array and a slot whose
  destructor has run are all visible.

  Conventions of the model:
  \<^item> \<open>size_type\<close> is \<open>nat\<close> and \<open>new T[n]\<close> always succeeds. The only
    arithmetic on sizes that could wrap is \<open>old_cap * 2\<close> in \<open>grow\<close>, and it wraps
    only once an array of at least \<open>2^63\<close> slots is live, which no allocation grants;
    running out of memory is outside the design.
  \<^item> The element type \<open>T\<close> is a type \<open>'a\<close> of values with four parameters:
    \<open>dflt\<close>, the value of a default-initialised element (it also stands for \<open>T()\<close>);
    \<open>triv\<close>, whether \<open>T\<close> is trivially destructible; \<open>eq\<close>, its \<open>operator==\<close>;
    and \<open>lt\<close>, its \<open>operator<\<close>. Assignment stores the value, and \<open>std::move\<close> of
    an element hands the value over.
  \<^item> A slot of an array holds a live element or, after its destructor has run, none.
    \<open>new T[n]\<close> makes \<open>n\<close> live elements and \<open>delete[]\<close> runs the destructor of
    every slot. For a trivially destructible \<open>T\<close> a destructor call does nothing and the
    slot stays live. For any other \<open>T\<close>, reading a destroyed slot, assigning to it, or
    destroying it a second time is undefined.
  \<^item> A parameter of type \<open>const T &\<close> that is read after the container may have
    released its buffer (\<open>push_back\<close>, \<open>emplace_back\<close>, \<open>resize\<close>) is a reference:
    to an object outside every array, or to a slot of the store. \<open>push_back(T &&)\<close> runs
    the statements of \<open>push_back(const T &)\<close> and has the same model.
  \<^item> A container is the value of its three pointers. Where the source compares object
    addresses (\<open>this != &other\<close> in the assignment operators), the model takes the
    outcome of the comparison as an argument. The stream operators are not modelled.
  \<^item> \<open>std::exit(EXIT_FAILURE)\<close> after a line on \<open>std::cerr\<close> is the result
    \<open>Inl (Exit_failure msg)\<close>; what C++ leaves undefined (an access through a null or
    dangling pointer or outside the array, a difference of unrelated pointers, a use of a
    destroyed element) is \<open>Inl Undefined_behaviour\<close>.
\<close>

subsection \<open>Pointers, the store and results\<close>

text \<open>A pointer is null or addresses slot \<open>i\<close> of the array with identity \<open>b\<close>.\<close>

datatype ptr = Null | Ptr nat nat

text \<open>
  What the source prints on \<open>std::cerr\<close> before it exits: the out-of-range line of
  \<open>at\<close> ends with the index; the lines of \<open>front\<close>, \<open>back\<close> and \<open>pop_back\<close>
  are fixed texts.
\<close>

datatype stderr_msg = Msg_index nat | Msg_front | Msg_back | Msg_pop_back

datatype fault = Exit_failure stderr_msg | Undefined_behaviour

type_synonym 'r result = "fault + 'r"

definition and_then :: "'r result \<Rightarrow> ('r \<Rightarrow> 's result) \<Rightarrow> 's result" where
  "and_then m f = (case m of Inl e \<Rightarrow> Inl e | Inr x \<Rightarrow> f x)"

text \<open>A slot: a live element with its value, or an element whose destructor has run.\<close>

datatype 'a slot = Live 'a | Dead

fun live :: "'a slot \<Rightarrow> bool" where
  "live (Live x) = True"
| "live Dead = False"

text \<open>
  The store: array \<open>b\<close> is \<open>h ! b\<close>, \<open>Some\<close> of its slots while it is allocated and
  \<open>None\<close> once \<open>delete[]\<close> has released it. Identities are never reused.
\<close>

type_synonym 'a heap = "'a slot list option list"

definition block :: "'a heap \<Rightarrow> nat \<Rightarrow> 'a slot list option" where
  "block h b = (if b < length h then h ! b else None)"

text \<open>\<open>new T[n]\<close>: a fresh array of \<open>n\<close> default-initialised elements; never null, also for \<open>n = 0\<close>.\<close>

definition new_array :: "'a \<Rightarrow> 'a heap \<Rightarrow> nat \<Rightarrow> 'a heap \<times> ptr" where
  "new_array dflt h n = (h @ [Some (replicate n (Live dflt))], Ptr (length h) 0)"

text \<open>
  \<open>delete[] p\<close>: nothing for the null pointer; else \<open>p\<close> must be what \<open>new T[n]\<close>
  returned, the destructor of each of the \<open>n\<close> slots runs, which is undefined for a slot
  already destroyed, and the array is released.
\<close>

fun delete_array :: "'a heap \<Rightarrow> ptr \<Rightarrow> 'a heap result" where
  "delete_array h Null = Inr h"
| "delete_array h (Ptr b i) =
     (case block h b of
        Some xs \<Rightarrow>
          if i = 0 \<and> list_all live xs then Inr (h[b := None]) else Inl Undefined_behaviour
      | None \<Rightarrow> Inl Undefined_behaviour)"

text \<open>Reading \<open>p[i]\<close> and assigning to it: the slot must hold a live element.\<close>

fun load :: "'a heap \<Rightarrow> ptr \<Rightarrow> nat \<Rightarrow> 'a result" where
  "load h Null i = Inl Undefined_behaviour"
| "load h (Ptr b j) i =
     (case block h b of
        Some xs \<Rightarrow>
          if j + i < length xs then
            (case xs ! (j + i) of Live x \<Rightarrow> Inr x | Dead \<Rightarrow> Inl Undefined_behaviour)
          else Inl Undefined_behaviour
      | None \<Rightarrow> Inl Undefined_behaviour)"

fun store :: "'a heap \<Rightarrow> ptr \<Rightarrow> nat \<Rightarrow> 'a \<Rightarrow> 'a heap result" where
  "store h Null i x = Inl Undefined_behaviour"
| "store h (Ptr b j) i x =
     (case block h b of
        Some xs \<Rightarrow>
          if j + i < length xs \<and> live (xs ! (j + i)) then
            Inr (h[b := Some (xs[j + i := Live x])])
          else Inl Undefined_behaviour
      | None \<Rightarrow> Inl Undefined_behaviour)"

text \<open>\<open>new (p) T(...)\<close>: an element is constructed in slot \<open>p\<close>, whatever the slot held.\<close>

fun construct_at :: "'a heap \<Rightarrow> ptr \<Rightarrow> 'a \<Rightarrow> 'a heap result" where
  "construct_at h Null x = Inl Undefined_behaviour"
| "construct_at h (Ptr b j) x =
     (case block h b of
        Some xs \<Rightarrow>
          if j < length xs then Inr (h[b := Some (xs[j := Live x])])
          else Inl Undefined_behaviour
      | None \<Rightarrow> Inl Undefined_behaviour)"

text \<open>
  \<open>p->~T()\<close>: nothing for a trivially destructible \<open>T\<close>; else the element of slot
  \<open>p\<close> is destroyed, which is undefined if it has been destroyed before.
\<close>

fun destroy_at :: "bool \<Rightarrow> 'a heap \<Rightarrow> ptr \<Rightarrow> 'a heap result" where
  "destroy_at triv h Null = Inl Undefined_behaviour"
| "destroy_at triv h (Ptr b j) =
     (case block h b of
        Some xs \<Rightarrow>
          if j < length xs \<and> live (xs ! j) then
            Inr (if triv then h else h[b := Some (xs[j := Dead])])
          else Inl Undefined_behaviour
      | None \<Rightarrow> Inl Undefined_behaviour)"

text \<open>
  A \<open>const T &\<close> argument: a reference to an object outside every array, which has the
  value \<open>x\<close> throughout the call, or to a slot of the store, read when the callee reads it.
\<close>

datatype 'a cref = Object 'a | Slot ptr

fun read_ref :: "'a heap \<Rightarrow> 'a cref \<Rightarrow> 'a result" where
  "read_ref h (Object x) = Inr x"
| "read_ref h (Slot p) = load h p 0"

text \<open>
  Pointer arithmetic: \<open>p + n\<close>, \<open>--p\<close> and \<open>p - q\<close> cast to \<open>size_type\<close>. A
  difference is taken within one array or between two null pointers; a negative one, which
  the cast would wrap, is outside the model and has the result of an undefined access.
\<close>

fun ptr_add :: "ptr \<Rightarrow> nat \<Rightarrow> ptr result" where
  "ptr_add Null n = (if n = 0 then Inr Null else Inl Undefined_behaviour)"
| "ptr_add (Ptr b i) n = Inr (Ptr b (i + n))"

fun ptr_dec :: "ptr \<Rightarrow> ptr result" where
  "ptr_dec Null = Inl Undefined_behaviour"
| "ptr_dec (Ptr b i) = (if 0 < i then Inr (Ptr b (i - 1)) else Inl Undefined_behaviour)"

fun ptr_diff :: "ptr \<Rightarrow> ptr \<Rightarrow> nat result" where
  "ptr_diff Null Null = Inr 0"
| "ptr_diff (Ptr b i) (Ptr c j) =
     (if b = c \<and> j \<le> i then Inr (i - j) else Inl Undefined_behaviour)"
| "ptr_diff Null (Ptr c j) = Inl Undefined_behaviour"
| "ptr_diff (Ptr b i) Null = Inl Undefined_behaviour"

subsection \<open>The class\<close>

record vector =
  first :: ptr
  last_ptr :: ptr
  end_ptr :: ptr

definition size_vec :: "vector \<Rightarrow> nat result" where
  "size_vec v = ptr_diff (last_ptr v) (first v)"

definition capacity :: "vector \<Rightarrow> nat result" where
  "capacity v = ptr_diff (end_ptr v) (first v)"

definition empty_vec :: "vector \<Rightarrow> bool result" where
  "empty_vec v = and_then (size_vec v) (\<lambda>n. Inr (n = 0))"

subsection \<open>Constructors\<close>

text \<open>\<open>vector()\<close>: three null pointers.\<close>

definition vector_default :: vector where
  "vector_default = \<lparr>first = Null, last_ptr = Null, end_ptr = Null\<rparr>"

text \<open>The loop \<open>for (i = 0; i < count; ++i) first[i] = value;\<close>, entered at \<open>i\<close>.\<close>

function fill_loop :: "'a heap \<Rightarrow> ptr \<Rightarrow> 'a \<Rightarrow> nat \<Rightarrow> nat \<Rightarrow> 'a heap result" where
  "fill_loop h p x i count =
     (if i < count then
        (case store h p i x of
           Inl e \<Rightarrow> Inl e
         | Inr h' \<Rightarrow> fill_loop h' p x (i + 1) count)
      else Inr h)"
  by pat_completeness auto
termination
  by (relation "measure (\<lambda>(h, p, x, i, count). count - i)") auto

declare fill_loop.simps [simp del]

text \<open>
  \<open>vector(size_type count, const T &value)\<close>. The constructor releases no array, so
  the model takes the value that \<open>value\<close> refers to.
\<close>

definition vector_fill :: "'a \<Rightarrow> 'a heap \<Rightarrow> nat \<Rightarrow> 'a \<Rightarrow> ('a heap \<times> vector) result" where
  "vector_fill dflt h count x =
     (case new_array dflt h count of
        (h1, p) \<Rightarrow>
          and_then (ptr_add p count) (\<lambda>l.
          and_then (ptr_add p count) (\<lambda>e.
          and_then (fill_loop h1 p x 0 count) (\<lambda>h2.
            Inr (h2, \<lparr>first = p, last_ptr = l, end_ptr = e\<rparr>)))))"

text \<open>The loop \<open>for (const auto &elem : init) first[i++] = elem;\<close>, entered at \<open>i\<close>.\<close>

fun init_loop :: "'a heap \<Rightarrow> ptr \<Rightarrow> nat \<Rightarrow> 'a list \<Rightarrow> 'a heap result" where
  "init_loop h p i [] = Inr h"
| "init_loop h p i (elem # rest) =
     (case store h p i elem of
        Inl e \<Rightarrow> Inl e
      | Inr h' \<Rightarrow> init_loop h' p (i + 1) rest)"

text \<open>\<open>vector(std::initializer_list<T> init)\<close>: delegates to \<open>vector(init.size(), T())\<close>.\<close>

definition vector_init :: "'a \<Rightarrow> 'a heap \<Rightarrow> 'a list \<Rightarrow> ('a heap \<times> vector) result" where
  "vector_init dflt h init =
     and_then (vector_fill dflt h (length init) dflt) (\<lambda>(h1, v).
     and_then (init_loop h1 (first v) 0 init) (\<lambda>h2. Inr (h2, v)))"

text \<open>
  The loop \<open>for (i = 0; i < n; ++i) dst[i] = src[i];\<close>, entered at \<open>i\<close>. The copy
  constructor runs it with a copy assignment and \<open>reallocate\<close> with
  \<open>dst[i] = std::move(src[i])\<close>; both store the value of \<open>src[i]\<close> in \<open>dst[i]\<close>.
\<close>

function copy_loop :: "'a heap \<Rightarrow> ptr \<Rightarrow> ptr \<Rightarrow> nat \<Rightarrow> nat \<Rightarrow> 'a heap result" where
  "copy_loop h dst src i n =
     (if i < n then
        (case load h src i of
           Inl e \<Rightarrow> Inl e
         | Inr x \<Rightarrow>
             (case store h dst i x of
                Inl e \<Rightarrow> Inl e
              | Inr h' \<Rightarrow> copy_loop h' dst src (i + 1) n))
      else Inr h)"
  by pat_completeness auto
termination
  by (relation "measure (\<lambda>(h, dst, src, i, n). n - i)") auto

declare copy_loop.simps [simp del]

text \<open>\<open>vector(const vector &other)\<close>: the new array has \<open>other.capacity()\<close> slots.\<close>

definition vector_copy :: "'a \<Rightarrow> 'a heap \<Rightarrow> vector \<Rightarrow> ('a heap \<times> vector) result" where
  "vector_copy dflt h other =
     and_then (capacity other) (\<lambda>c.
       (case new_array dflt h c of
          (h1, p) \<Rightarrow>
            and_then (size_vec other) (\<lambda>n.
            and_then (ptr_add p n) (\<lambda>l.
            and_then (ptr_add p c) (\<lambda>e.
            and_then (copy_loop h1 p (first other) 0 n) (\<lambda>h2.
              Inr (h2, \<lparr>first = p, last_ptr = l, end_ptr = e\<rparr>)))))))"

text \<open>
  \<open>vector(vector &&other)\<close>: takes the three pointers and nulls the source's. The result
  is the new object and the source afterwards; the store is not touched.
\<close>

definition vector_move :: "vector \<Rightarrow> vector \<times> vector" where
  "vector_move other =
     (\<lparr>first = first other, last_ptr = last_ptr other, end_ptr = end_ptr other\<rparr>,
      other\<lparr>first := Null, last_ptr := Null, end_ptr := Null\<rparr>)"

text \<open>\<open>vector(pointer start, pointer end)\<close>: copies the range into a new array.\<close>

definition vector_range :: "'a \<Rightarrow> 'a heap \<Rightarrow> ptr \<Rightarrow> ptr \<Rightarrow> ('a heap \<times> vector) result" where
  "vector_range dflt h start end' =
     and_then (ptr_diff end' start) (\<lambda>n.
       (case new_array dflt h n of
          (h1, p) \<Rightarrow>
            and_then (ptr_add p n) (\<lambda>l.
            and_then (ptr_add p n) (\<lambda>e.
            and_then (copy_loop h1 p start 0 n) (\<lambda>h2.
              Inr (h2, \<lparr>first = p, last_ptr = l, end_ptr = e\<rparr>))))))"

text \<open>\<open>~vector()\<close>: \<open>delete[] first\<close>.\<close>

definition destroy :: "'a heap \<Rightarrow> vector \<Rightarrow> 'a heap result" where
  "destroy h v = delete_array h (first v)"

subsection \<open>Element access\<close>

text \<open>
  \<open>at(index)\<close> returns a reference: the address of slot \<open>first[index]\<close>, which
  \<open>load\<close> reads. It writes nothing, so it has no store and no object to return.
\<close>

definition at :: "vector \<Rightarrow> nat \<Rightarrow> ptr result" where
  "at v index =
     and_then (size_vec v) (\<lambda>n.
       if index \<ge> n then Inl (Exit_failure (Msg_index index))
       else ptr_add (first v) index)"

text \<open>\<open>operator[](index)\<close>: the reference \<open>first[index]\<close>, unchecked.\<close>

definition subscript :: "vector \<Rightarrow> nat \<Rightarrow> ptr result" where
  "subscript v index = ptr_add (first v) index"

definition front :: "vector \<Rightarrow> ptr result" where
  "front v =
     and_then (empty_vec v) (\<lambda>e.
       if e then Inl (Exit_failure Msg_front) else Inr (first v))"

definition back_vec :: "vector \<Rightarrow> ptr result" where
  "back_vec v =
     and_then (empty_vec v) (\<lambda>e.
       if e then Inl (Exit_failure Msg_back) else ptr_dec (last_ptr v))"

subsection \<open>Growth\<close>

text \<open>\<open>reallocate(new_cap)\<close>: a new array, the live elements moved over, the old array released.\<close>

definition reallocate :: "'a \<Rightarrow> 'a heap \<Rightarrow> vector \<Rightarrow> nat \<Rightarrow> ('a heap \<times> vector) result" where
  "reallocate dflt h v new_cap =
     (case new_array dflt h new_cap of
        (h1, new_data) \<Rightarrow>
          and_then (size_vec v) (\<lambda>old_size.
          and_then (copy_loop h1 new_data (first v) 0 old_size) (\<lambda>h2.
          and_then (delete_array h2 (first v)) (\<lambda>h3.
          and_then (ptr_add new_data old_size) (\<lambda>l.
          and_then (ptr_add new_data new_cap) (\<lambda>e.
            Inr (h3, v\<lparr>first := new_data, last_ptr := l, end_ptr := e\<rparr>)))))))"

definition grow :: "'a \<Rightarrow> 'a heap \<Rightarrow> vector \<Rightarrow> ('a heap \<times> vector) result" where
  "grow dflt h v =
     and_then (capacity v) (\<lambda>old_cap.
       reallocate dflt h v (if old_cap = 0 then 1 else old_cap * 2))"

definition reserve :: "'a \<Rightarrow> 'a heap \<Rightarrow> vector \<Rightarrow> nat \<Rightarrow> ('a heap \<times> vector) result" where
  "reserve dflt h v new_cap =
     and_then (capacity v) (\<lambda>c.
       if new_cap > c then reallocate dflt h v new_cap else Inr (h, v))"

definition shrink_to_fit :: "'a \<Rightarrow> 'a heap \<Rightarrow> vector \<Rightarrow> ('a heap \<times> vector) result" where
  "shrink_to_fit dflt h v =
     and_then (capacity v) (\<lambda>c.
     and_then (size_vec v) (\<lambda>n.
       if c > n then reallocate dflt h v n else Inr (h, v)))"

subsection \<open>Mutation\<close>

text \<open>
  \<open>push_back(value)\<close>: \<open>if (last == end_ptr) grow(); *last++ = value;\<close>. The
  reference \<open>value\<close> is read by the assignment, after \<open>grow\<close>.
\<close>

definition push_back :: "'a \<Rightarrow> 'a heap \<Rightarrow> vector \<Rightarrow> 'a cref \<Rightarrow> ('a heap \<times> vector) result" where
  "push_back dflt h v value =
     and_then (if last_ptr v = end_ptr v then grow dflt h v else Inr (h, v)) (\<lambda>(h1, v1).
     and_then (read_ref h1 value) (\<lambda>x.
     and_then (store h1 (last_ptr v1) 0 x) (\<lambda>h2.
     and_then (ptr_add (last_ptr v1) 1) (\<lambda>l.
       Inr (h2, v1\<lparr>last_ptr := l\<rparr>)))))"

text \<open>
  \<open>emplace_back(args...)\<close>: \<open>if (last == end_ptr) grow(); new (last++) T(args...);\<close>.
  The model has one argument, of type \<open>T\<close>, from which the element is constructed.
\<close>

definition emplace_back :: "'a \<Rightarrow> 'a heap \<Rightarrow> vector \<Rightarrow> 'a cref \<Rightarrow> ('a heap \<times> vector) result" where
  "emplace_back dflt h v arg =
     and_then (if last_ptr v = end_ptr v then grow dflt h v else Inr (h, v)) (\<lambda>(h1, v1).
     and_then (read_ref h1 arg) (\<lambda>x.
     and_then (construct_at h1 (last_ptr v1) x) (\<lambda>h2.
     and_then (ptr_add (last_ptr v1) 1) (\<lambda>l.
       Inr (h2, v1\<lparr>last_ptr := l\<rparr>)))))"

text \<open>\<open>pop_back()\<close>: exits on an empty container, else \<open>--last; last->~T();\<close>\<close>

definition pop_back :: "bool \<Rightarrow> 'a heap \<Rightarrow> vector \<Rightarrow> ('a heap \<times> vector) result" where
  "pop_back triv h v =
     and_then (empty_vec v) (\<lambda>e.
       if e then Inl (Exit_failure Msg_pop_back)
       else
         and_then (ptr_dec (last_ptr v)) (\<lambda>l.
         and_then (destroy_at triv h l) (\<lambda>h'. Inr (h', v\<lparr>last_ptr := l\<rparr>))))"

text \<open>\<open>swap(other)\<close>: exchanges the three pointers; the result is this object and the other.\<close>

definition swap_vec :: "vector \<Rightarrow> vector \<Rightarrow> vector \<times> vector" where
  "swap_vec v other =
     (v\<lparr>first := first other, last_ptr := last_ptr other, end_ptr := end_ptr other\<rparr>,
      other\<lparr>first := first v, last_ptr := last_ptr v, end_ptr := end_ptr v\<rparr>)"

text \<open>
  Copy assignment: unless \<open>this\<close> is \<open>&other\<close>, a temporary copy of \<open>other\<close> is
  swapped with this object and then destroyed, with this object's former array.
\<close>

definition copy_assign ::
  "'a \<Rightarrow> 'a heap \<Rightarrow> vector \<Rightarrow> vector \<Rightarrow> bool \<Rightarrow> ('a heap \<times> vector) result" where
  "copy_assign dflt h v other same_object =
     (if \<not> same_object then
        and_then (vector_copy dflt h other) (\<lambda>(h1, temp).
          (case swap_vec v temp of
             (v', temp') \<Rightarrow> and_then (destroy h1 temp') (\<lambda>h2. Inr (h2, v'))))
      else Inr (h, v))"

text \<open>
  Move assignment: unless \<open>this\<close> is \<open>&other\<close>, this object's array is released and
  the pointers of \<open>other\<close> are taken over. The result is the store, this object and the
  other.
\<close>

definition move_assign ::
  "'a heap \<Rightarrow> vector \<Rightarrow> vector \<Rightarrow> bool \<Rightarrow> ('a heap \<times> vector \<times> vector) result" where
  "move_assign h v other same_object =
     (if \<not> same_object then
        and_then (delete_array h (first v)) (\<lambda>h1.
          Inr (h1,
               v\<lparr>first := first other, last_ptr := last_ptr other, end_ptr := end_ptr other\<rparr>,
               other\<lparr>first := Null, last_ptr := Null, end_ptr := Null\<rparr>))
      else Inr (h, v, other))"

text \<open>\<open>clear()\<close>: \<open>while (last != first) (--last)->~T();\<close>\<close>

function clear :: "bool \<Rightarrow> 'a heap \<Rightarrow> vector \<Rightarrow> ('a heap \<times> vector) result" where
  "clear triv h v =
     (if last_ptr v \<noteq> first v then
        (case ptr_dec (last_ptr v) of
           Inl e \<Rightarrow> Inl e
         | Inr l \<Rightarrow>
             (case destroy_at triv h l of
                Inl e \<Rightarrow> Inl e
              | Inr h' \<Rightarrow> clear triv h' (v\<lparr>last_ptr := l\<rparr>)))
      else Inr (h, v))"
  by pat_completeness auto
termination
  by (relation "measure (\<lambda>(triv, h, v). case last_ptr v of Null \<Rightarrow> 0 | Ptr b i \<Rightarrow> i)")
     (auto split: ptr.splits if_splits)

declare clear.simps [simp del]

lemma pop_back_size:
  "pop_back triv h v = Inr (h', v') \<Longrightarrow> size_vec v = Inr n \<Longrightarrow>
   0 < n \<and> size_vec v' = Inr (n - 1)"
  by (cases "last_ptr v"; cases "first v")
     (auto simp: pop_back_def empty_vec_def size_vec_def and_then_def
      split: if_splits sum.splits)

text \<open>The first loop of \<open>resize\<close>: \<open>while (size() > new_size) pop_back();\<close>\<close>

function resize_pop_loop :: "bool \<Rightarrow> 'a heap \<Rightarrow> vector \<Rightarrow> nat \<Rightarrow> ('a heap \<times> vector) result" where
  "resize_pop_loop triv h v new_size =
     (case size_vec v of
        Inl e \<Rightarrow> Inl e
      | Inr n \<Rightarrow>
          if n > new_size then
            (case pop_back triv h v of
               Inl e \<Rightarrow> Inl e
             | Inr (h', v') \<Rightarrow> resize_pop_loop triv h' v' new_size)
          else Inr (h, v))"
  by pat_completeness auto
termination
  by (relation "measure (\<lambda>(triv, h, v, new_size). case size_vec v of Inl e \<Rightarrow> 0 | Inr n \<Rightarrow> n)")
     (auto dest: pop_back_size)

declare resize_pop_loop.simps [simp del]

lemma reallocate_size:
  "reallocate dflt h v c = Inr (h', v') \<Longrightarrow> size_vec v = Inr n \<Longrightarrow>
   size_vec v' = Inr n \<and> (\<exists>b. first v' = Ptr b 0 \<and> last_ptr v' = Ptr b n \<and> end_ptr v' = Ptr b c)"
  by (auto simp: reallocate_def new_array_def and_then_def size_vec_def split: sum.splits)

lemma push_back_size:
  "push_back dflt h v value = Inr (h', v') \<Longrightarrow> size_vec v = Inr n \<Longrightarrow> size_vec v' = Inr (n + 1)"
proof (cases "last_ptr v = end_ptr v")
  case True
  assume "push_back dflt h v value = Inr (h', v')" "size_vec v = Inr n"
  with True show ?thesis
    by (auto simp: push_back_def grow_def and_then_def size_vec_def
        split: sum.splits dest!: reallocate_size)
next
  case False
  assume "push_back dflt h v value = Inr (h', v')" "size_vec v = Inr n"
  with False show ?thesis
    by (cases "last_ptr v"; cases "first v")
       (auto simp: push_back_def and_then_def size_vec_def
        split: sum.splits if_splits option.splits)
qed

text \<open>The second loop of \<open>resize\<close>: \<open>while (size() < new_size) push_back(value);\<close>\<close>

function resize_push_loop ::
  "'a \<Rightarrow> 'a heap \<Rightarrow> vector \<Rightarrow> nat \<Rightarrow> 'a cref \<Rightarrow> ('a heap \<times> vector) result" where
  "resize_push_loop dflt h v new_size value =
     (case size_vec v of
        Inl e \<Rightarrow> Inl e
      | Inr n \<Rightarrow>
          if n < new_size then
            (case push_back dflt h v value of
               Inl e \<Rightarrow> Inl e
             | Inr (h', v') \<Rightarrow> resize_push_loop dflt h' v' new_size value)
          else Inr (h, v))"
  by pat_completeness auto
termination
  by (relation "measure (\<lambda>(dflt, h, v, new_size, value).
        case size_vec v of Inl e \<Rightarrow> 0 | Inr n \<Rightarrow> new_size - n)")
     (auto dest: push_back_size)

declare resize_push_loop.simps [simp del]

text \<open>\<open>resize(new_size, value)\<close>.\<close>

definition resize ::
  "bool \<Rightarrow> 'a \<Rightarrow> 'a heap \<Rightarrow> vector \<Rightarrow> nat \<Rightarrow> 'a cref \<Rightarrow> ('a heap \<times> vector) result" where
  "resize triv dflt h v new_size value =
     and_then (size_vec v) (\<lambda>n.
       if new_size < n then resize_pop_loop triv h v new_size
       else if new_size > n then
         and_then (reserve dflt h v new_size) (\<lambda>(h1, v1).
           resize_push_loop dflt h1 v1 new_size value)
       else Inr (h, v))"

subsection \<open>Comparison\<close>

text \<open>The loop of \<open>operator==\<close>, entered at \<open>i\<close>; \<open>lhs[i]\<close> is \<open>lhs.first[i]\<close>.\<close>

function eq_loop ::
  "('a \<Rightarrow> 'a \<Rightarrow> bool) \<Rightarrow> 'a heap \<Rightarrow> vector \<Rightarrow> vector \<Rightarrow> nat \<Rightarrow> nat \<Rightarrow> bool result" where
  "eq_loop eq h lhs rhs i n =
     (if i < n then
        (case load h (first lhs) i of
           Inl e \<Rightarrow> Inl e
         | Inr x \<Rightarrow>
             (case load h (first rhs) i of
                Inl e \<Rightarrow> Inl e
              | Inr y \<Rightarrow> if \<not> eq x y then Inr False else eq_loop eq h lhs rhs (i + 1) n))
      else Inr True)"
  by pat_completeness auto
termination
  by (relation "measure (\<lambda>(eq, h, lhs, rhs, i, n). n - i)") auto

declare eq_loop.simps [simp del]

definition vec_eq :: "('a \<Rightarrow> 'a \<Rightarrow> bool) \<Rightarrow> 'a heap \<Rightarrow> vector \<Rightarrow> vector \<Rightarrow> bool result" where
  "vec_eq eq h lhs rhs =
     and_then (size_vec lhs) (\<lambda>n.
     and_then (size_vec rhs) (\<lambda>m.
       if n \<noteq> m then Inr False else eq_loop eq h lhs rhs 0 n))"

definition vec_ne :: "('a \<Rightarrow> 'a \<Rightarrow> bool) \<Rightarrow> 'a heap \<Rightarrow> vector \<Rightarrow> vector \<Rightarrow> bool result" where
  "vec_ne eq h lhs rhs = and_then (vec_eq eq h lhs rhs) (\<lambda>r. Inr (\<not> r))"

text \<open>
  \<open>std::lexicographical_compare\<close> is the standard library's, not this repository's. Its
  model follows the C++ standard's definition of the algorithm:
  \<^verbatim>\<open>
  for ( ; first1 != last1 && first2 != last2; ++first1, (void) ++first2) {
    if (*first1 < *first2) return true;
    if (*first2 < *first1) return false;
  }
  return first1 == last1 && first2 != last2;
  \<close>
\<close>

function lexicographical_compare ::
  "('a \<Rightarrow> 'a \<Rightarrow> bool) \<Rightarrow> 'a heap \<Rightarrow> ptr \<Rightarrow> ptr \<Rightarrow> ptr \<Rightarrow> ptr \<Rightarrow> bool result" where
  "lexicographical_compare lt h first1 last1 first2 last2 =
     (if first1 \<noteq> last1 \<and> first2 \<noteq> last2 then
        (case load h first1 0 of
           Inl e \<Rightarrow> Inl e
         | Inr x \<Rightarrow>
             (case load h first2 0 of
                Inl e \<Rightarrow> Inl e
              | Inr y \<Rightarrow>
                  if lt x y then Inr True
                  else if lt y x then Inr False
                  else
                    (case ptr_add first1 1 of
                       Inl e \<Rightarrow> Inl e
                     | Inr p1 \<Rightarrow>
                         (case ptr_add first2 1 of
                            Inl e \<Rightarrow> Inl e
                          | Inr p2 \<Rightarrow> lexicographical_compare lt h p1 last1 p2 last2))))
      else Inr (first1 = last1 \<and> first2 \<noteq> last2))"
  by pat_completeness auto
termination
  by (relation "measure (\<lambda>(lt, h, first1, last1, first2, last2).
        case first1 of
          Null \<Rightarrow> 0
        | Ptr b i \<Rightarrow> (case block h b of None \<Rightarrow> 0 | Some xs \<Rightarrow> length xs - i))")
     (auto split: ptr.splits option.splits if_splits)

declare lexicographical_compare.simps [simp del]

definition vec_lt :: "('a \<Rightarrow> 'a \<Rightarrow> bool) \<Rightarrow> 'a heap \<Rightarrow> vector \<Rightarrow> vector \<Rightarrow> bool result" where
  "vec_lt lt h lhs rhs =
     lexicographical_compare lt h (first lhs) (last_ptr lhs) (first rhs) (last_ptr rhs)"

definition vec_le :: "('a \<Rightarrow> 'a \<Rightarrow> bool) \<Rightarrow> 'a heap \<Rightarrow> vector \<Rightarrow> vector \<Rightarrow> bool result" where
  "vec_le lt h lhs rhs = and_then (vec_lt lt h rhs lhs) (\<lambda>r. Inr (\<not> r))"

definition vec_gt :: "('a \<Rightarrow> 'a \<Rightarrow> bool) \<Rightarrow> 'a heap \<Rightarrow> vector \<Rightarrow> vector \<Rightarrow> bool result" where
  "vec_gt lt h lhs rhs = vec_lt lt h rhs lhs"

definition vec_ge :: "('a \<Rightarrow> 'a \<Rightarrow> bool) \<Rightarrow> 'a heap \<Rightarrow> vector \<Rightarrow> vector \<Rightarrow> bool result" where
  "vec_ge lt h lhs rhs = and_then (vec_lt lt h lhs rhs) (\<lambda>r. Inr (\<not> r))"

subsection \<open>Well-formed containers and their elements\<close>

text \<open>
  The class invariant: either all three pointers are null, or they point into one
  allocated array: \<open>first\<close> at its start, \<open>end_ptr\<close> one past its last slot and
  \<open>last\<close> between them, with a live element in every slot before \<open>last\<close>. The
  properties below are stated for well-formed containers; every state the class reaches
  is well formed (lemma \<open>reachable_inv\<close>).
\<close>

definition well_formed :: "'a heap \<Rightarrow> vector \<Rightarrow> bool" where
  "well_formed h v =
     (case first v of
        Null \<Rightarrow> last_ptr v = Null \<and> end_ptr v = Null
      | Ptr b i \<Rightarrow>
          i = 0 \<and>
          (case block h b of
             None \<Rightarrow> False
           | Some xs \<Rightarrow>
               (case last_ptr v of
                  Null \<Rightarrow> False
                | Ptr b1 n \<Rightarrow>
                    b1 = b \<and> n \<le> length xs \<and> end_ptr v = Ptr b (length xs) \<and>
                    list_all live (take n xs))))"

text \<open>
  Whether every slot of the buffer holds a live element, also those from \<open>last\<close> on. It
  is so while no destructor of a \<open>T\<close> that is not trivially destructible has run on a
  slot of the buffer.
\<close>

definition all_live :: "'a heap \<Rightarrow> vector \<Rightarrow> bool" where
  "all_live h v =
     (case first v of
        Null \<Rightarrow> True
      | Ptr b i \<Rightarrow> (case block h b of None \<Rightarrow> True | Some xs \<Rightarrow> list_all live xs))"

text \<open>The live elements \<open>first[0], ..., first[size() - 1]\<close>, in order.\<close>

fun slot_values :: "'a slot list \<Rightarrow> 'a list" where
  "slot_values [] = []"
| "slot_values (Live x # ss) = x # slot_values ss"
| "slot_values (Dead # ss) = slot_values ss"

definition elems :: "'a heap \<Rightarrow> vector \<Rightarrow> 'a list" where
  "elems h v =
     (case first v of
        Null \<Rightarrow> []
      | Ptr b i \<Rightarrow>
          (case block h b of
             None \<Rightarrow> []
           | Some xs \<Rightarrow>
               (case size_vec v of Inl e \<Rightarrow> [] | Inr n \<Rightarrow> slot_values (take n (drop i xs)))))"

subsection \<open>Runs of calls, the doubling rule, the lexicographic order, reachable states\<close>

text \<open>A run of \<open>push_back\<close> calls, one per argument of the list, stopping at the first fault.\<close>

fun push_all :: "'a \<Rightarrow> 'a heap \<Rightarrow> vector \<Rightarrow> 'a cref list \<Rightarrow> ('a heap \<times> vector) result" where
  "push_all dflt h v [] = Inr (h, v)"
| "push_all dflt h v (value # rest) =
     (case push_back dflt h v value of
        Inl e \<Rightarrow> Inl e
      | Inr (h', v') \<Rightarrow> push_all dflt h' v' rest)"

text \<open>
  The doubling rule in the specification's words: the capacity after \<open>k\<close> more appends to a
  container of length \<open>n\<close> and capacity \<open>c\<close>, where an append that finds the length
  equal to the capacity makes the capacity \<open>max 1 (c * 2)\<close> and any other append keeps it.
\<close>

fun doubling :: "nat \<Rightarrow> nat \<Rightarrow> nat \<Rightarrow> nat" where
  "doubling n c 0 = c"
| "doubling n c (Suc k) = doubling (Suc n) (if n = c then max 1 (c * 2) else c) k"

text \<open>
  The lexicographic order in the specification's words, over the element ordering \<open>lt\<close>:
  \<open>xs\<close> is less than \<open>ys\<close> when, at the first index where one element is less than
  the other, the element of \<open>xs\<close> is the lesser one, or when there is no such index within
  \<open>xs\<close> and \<open>xs\<close> is the shorter sequence.
\<close>

definition lex_less :: "('a \<Rightarrow> 'a \<Rightarrow> bool) \<Rightarrow> 'a list \<Rightarrow> 'a list \<Rightarrow> bool" where
  "lex_less lt xs ys \<longleftrightarrow>
     (\<exists>i<length xs. i < length ys \<and>
        (\<forall>k<i. \<not> lt (xs ! k) (ys ! k) \<and> \<not> lt (ys ! k) (xs ! k)) \<and> lt (xs ! i) (ys ! i)) \<or>
     (length xs < length ys \<and>
        (\<forall>k<length xs. \<not> lt (xs ! k) (ys ! k) \<and> \<not> lt (ys ! k) (xs ! k)))"

text \<open>
  An element \<open>operator==\<close> that is not reflexive, as that of \<open>double\<close>: \<open>None\<close> stands
  for a NaN, which compares unequal to everything, itself included.
\<close>

definition nan_eq :: "'a option \<Rightarrow> 'a option \<Rightarrow> bool" where
  "nan_eq x y = (x \<noteq> None \<and> x = y)"

text \<open>
  The states a container goes through. It is made by a constructor, on any store, and
  changed by its member functions; copies, moves, swaps and assignments involve a second
  container of the same store. An element can be assigned through the reference that
  \<open>operator[]\<close>, \<open>at\<close>, \<open>front\<close> or \<open>back\<close> returns. The rest of the program
  may allocate, write and release arrays other than this container's (\<open>r_frame\<close>), and
  two distinct containers never hold the same array, which rule \<open>r_move_assign\<close> takes
  as a premise. Runs that end in a fault reach no state.
\<close>

inductive reachable :: "bool \<Rightarrow> 'a \<Rightarrow> 'a heap \<Rightarrow> vector \<Rightarrow> bool"
  for triv :: bool and dflt :: 'a where
  r_default: "reachable triv dflt h vector_default"
| r_fill: "vector_fill dflt h count x = Inr (h', v) \<Longrightarrow> reachable triv dflt h' v"
| r_init: "vector_init dflt h init = Inr (h', v) \<Longrightarrow> reachable triv dflt h' v"
| r_range: "vector_range dflt h start end' = Inr (h', v) \<Longrightarrow> reachable triv dflt h' v"
| r_copy: "reachable triv dflt h other \<Longrightarrow> vector_copy dflt h other = Inr (h', v) \<Longrightarrow>
     reachable triv dflt h' v"
| r_copied: "reachable triv dflt h other \<Longrightarrow> vector_copy dflt h other = Inr (h', v) \<Longrightarrow>
     reachable triv dflt h' other"
| r_move: "reachable triv dflt h other \<Longrightarrow> vector_move other = (v, other') \<Longrightarrow>
     reachable triv dflt h v"
| r_moved_from: "reachable triv dflt h other \<Longrightarrow> vector_move other = (v, other') \<Longrightarrow>
     reachable triv dflt h other'"
| r_copy_assign: "reachable triv dflt h v \<Longrightarrow> reachable triv dflt h other \<Longrightarrow>
     copy_assign dflt h v other same_object = Inr (h', v') \<Longrightarrow> reachable triv dflt h' v'"
| r_move_assign: "reachable triv dflt h v \<Longrightarrow> reachable triv dflt h other \<Longrightarrow>
     first v = Null \<or> first v \<noteq> first other \<Longrightarrow>
     move_assign h v other False = Inr (h', v', other') \<Longrightarrow> reachable triv dflt h' v'"
| r_move_assigned: "reachable triv dflt h v \<Longrightarrow> reachable triv dflt h other \<Longrightarrow>
     first v = Null \<or> first v \<noteq> first other \<Longrightarrow>
     move_assign h v other False = Inr (h', v', other') \<Longrightarrow> reachable triv dflt h' other'"
| r_assign_element: "reachable triv dflt h v \<Longrightarrow> size_vec v = Inr n \<Longrightarrow> i < n \<Longrightarrow>
     store h (first v) i x = Inr h' \<Longrightarrow> reachable triv dflt h' v"
| r_push_back: "reachable triv dflt h v \<Longrightarrow> push_back dflt h v value = Inr (h', v') \<Longrightarrow>
     reachable triv dflt h' v'"
| r_emplace_back: "reachable triv dflt h v \<Longrightarrow> emplace_back dflt h v arg = Inr (h', v') \<Longrightarrow>
     reachable triv dflt h' v'"
| r_pop_back: "reachable triv dflt h v \<Longrightarrow> pop_back triv h v = Inr (h', v') \<Longrightarrow>
     reachable triv dflt h' v'"
| r_clear: "reachable triv dflt h v \<Longrightarrow> clear triv h v = Inr (h', v') \<Longrightarrow>
     reachable triv dflt h' v'"
| r_resize: "reachable triv dflt h v \<Longrightarrow>
     resize triv dflt h v new_size value = Inr (h', v') \<Longrightarrow> reachable triv dflt h' v'"
| r_reserve: "reachable triv dflt h v \<Longrightarrow> reserve dflt h v new_cap = Inr (h', v') \<Longrightarrow>
     reachable triv dflt h' v'"
| r_shrink_to_fit: "reachable triv dflt h v \<Longrightarrow> shrink_to_fit dflt h v = Inr (h', v') \<Longrightarrow>
     reachable triv dflt h' v'"
| r_swap: "reachable triv dflt h v \<Longrightarrow> reachable triv dflt h other \<Longrightarrow>
     swap_vec v other = (v', other') \<Longrightarrow> reachable triv dflt h v'"
| r_swapped: "reachable triv dflt h v \<Longrightarrow> reachable triv dflt h other \<Longrightarrow>
     swap_vec v other = (v', other') \<Longrightarrow> reachable triv dflt h other'"
| r_frame: "reachable triv dflt h v \<Longrightarrow>
     (\<forall>b i. first v = Ptr b i \<longrightarrow> block h' b = block h b) \<Longrightarrow> reachable triv dflt h' v"

section \<open>Properties\<close>

subsection \<open>The two shapes of a well-formed container\<close>

lemma list_all_live_map [simp]: "list_all live (map Live ys)"
  by (induction ys) simp_all

lemma list_all_live_replicate [simp]: "list_all live (replicate n (Live x))"
  by (induction n) simp_all

lemma list_all_live_conv: "list_all live ss \<longleftrightarrow> (\<exists>ys. ss = map Live ys)"
proof
  show "\<exists>ys. ss = map Live ys" if "list_all live ss"
    using that
  proof (induction ss)
    case Nil
    show ?case by simp
  next
    case (Cons s ss)
    then obtain x ys where "s = Live x" "ss = map Live ys"
      by (cases s) auto
    then have "s # ss = map Live (x # ys)" by simp
    then show ?case by (rule exI)
  qed
  show "list_all live ss" if "\<exists>ys. ss = map Live ys"
    using that by auto
qed

lemma slot_values_map [simp]: "slot_values (map Live ys) = ys"
  by (induction ys) simp_all

lemma wf_cases [consumes 1, case_names null buf]:
  assumes "well_formed h v"
  obtains "first v = Null" "last_ptr v = Null" "end_ptr v = Null"
  | b ys zs where "first v = Ptr b 0" "last_ptr v = Ptr b (length ys)"
      "end_ptr v = Ptr b (length ys + length zs)" "block h b = Some (map Live ys @ zs)"
proof (cases "first v")
  case Null
  with assms that(1) show ?thesis by (simp add: well_formed_def)
next
  case (Ptr b i)
  with assms obtain xs n where x: "i = 0" "block h b = Some xs" "last_ptr v = Ptr b n"
    "n \<le> length xs" "end_ptr v = Ptr b (length xs)" "list_all live (take n xs)"
    by (cases "block h b"; cases "last_ptr v") (auto simp: well_formed_def)
  from x(6) obtain ys where ys: "take n xs = map Live ys"
    by (auto simp: list_all_live_conv)
  define zs where "zs = drop n xs"
  have n: "length ys = n"
    using ys x(4) by (metis length_map length_take min.absorb2)
  have "take n xs @ drop n xs = xs" by (rule append_take_drop_id)
  then have xs: "xs = map Live ys @ zs"
    using ys zs_def by simp
  have "last_ptr v = Ptr b (length ys)" "end_ptr v = Ptr b (length ys + length zs)"
    "block h b = Some (map Live ys @ zs)" "first v = Ptr b 0"
    using x(1,2,3,5) n xs Ptr by simp_all
  then show ?thesis
    using that(2) by blast
qed

lemma null_view:
  assumes "first v = Null" "last_ptr v = Null" "end_ptr v = Null"
  shows "size_vec v = Inr 0" "capacity v = Inr 0" "elems h v = []" "all_live h v"
    "well_formed h v"
  using assms by (simp_all add: size_vec_def capacity_def elems_def all_live_def well_formed_def)

lemma buf_view:
  assumes "first v = Ptr b 0" "last_ptr v = Ptr b (length ys)"
    "end_ptr v = Ptr b (length ys + length zs)" "block h b = Some (map Live ys @ zs)"
  shows "size_vec v = Inr (length ys)" "capacity v = Inr (length ys + length zs)"
    "elems h v = ys" "all_live h v = list_all live zs" "well_formed h v"
  using assms by (simp_all add: size_vec_def capacity_def elems_def all_live_def well_formed_def)

lemma wf_size_elems: "well_formed h v \<Longrightarrow> size_vec v = Inr (length (elems h v))"
  by (erule wf_cases) (simp_all add: null_view buf_view)

lemma wf_capacity: "well_formed h v \<Longrightarrow> \<exists>c. capacity v = Inr c \<and> length (elems h v) \<le> c"
  by (erule wf_cases) (simp_all add: null_view buf_view)

subsection \<open>Checked access\<close>

text \<open>
  C3. For a well-formed container with \<open>n\<close> live elements, \<open>at(index)\<close> exits, with the
  index on the error stream, exactly when \<open>index \<ge> n\<close>; for \<open>index < n\<close> it returns a
  reference through which the element at that index is read. \<open>at\<close> has no write, so the
  container is as before.
\<close>

theorem at_checked:
  assumes "well_formed h v"
  shows "\<exists>n. size_vec v = Inr n \<and> n = length (elems h v) \<and>
     (at v index = Inl (Exit_failure (Msg_index index)) \<longleftrightarrow> index \<ge> n) \<and>
     (index < n \<longrightarrow> (\<exists>r. at v index = Inr r \<and> load h r 0 = Inr (elems h v ! index)))"
  using assms
  by (cases rule: wf_cases) (auto simp: null_view buf_view at_def and_then_def nth_append)

theorem at_checked_witness:
  "well_formed [Some [Live 10, Live 20, Live 30, Live (0 :: nat)]]
     \<lparr>first = Ptr 0 0, last_ptr = Ptr 0 3, end_ptr = Ptr 0 4\<rparr> \<and>
   size_vec \<lparr>first = Ptr 0 0, last_ptr = Ptr 0 3, end_ptr = Ptr 0 4\<rparr> = Inr 3 \<and>
   at \<lparr>first = Ptr 0 0, last_ptr = Ptr 0 3, end_ptr = Ptr 0 4\<rparr> 1 = Inr (Ptr 0 1) \<and>
   load [Some [Live 10, Live 20, Live 30, Live (0 :: nat)]] (Ptr 0 1) 0 = Inr 20 \<and>
   at \<lparr>first = Ptr 0 0, last_ptr = Ptr 0 3, end_ptr = Ptr 0 4\<rparr> 3 = Inl (Exit_failure (Msg_index 3))"
proof -
  let ?h = "[Some [Live 10, Live 20, Live 30, Live (0 :: nat)]]"
  let ?v = "\<lparr>first = Ptr 0 0, last_ptr = Ptr 0 3, end_ptr = Ptr 0 4\<rparr>"
  have w: "well_formed ?h ?v"
    by (simp add: well_formed_def block_def)
  have ev: "size_vec ?v = Inr 3" "at ?v 1 = Inr (Ptr 0 1)" "load ?h (Ptr 0 1) 0 = Inr 20"
    "at ?v 3 = Inl (Exit_failure (Msg_index 3))"
    by code_simp+
  from at_checked [OF w, of 1] at_checked [OF w, of 3] w ev show ?thesis
    by simp
qed

subsection \<open>The store and the loops over it\<close>

lemma block_Some_less: "block h b = Some xs \<Longrightarrow> b < length h"
  by (simp add: block_def split: if_splits)

lemma block_update:
  "block (h[b := y]) c = (if c = b \<and> b < length h then y else block h c)"
  by (simp add: block_def)

lemma block_append:
  "block (h @ [y]) c = (if c < length h then block h c else if c = length h then y else None)"
  by (simp add: block_def nth_append)

lemma block_update_same: "block h b = Some ys \<Longrightarrow> h[b := Some ys] = h"
  by (metis block_def list_update_id option.distinct(1))

lemma live_cases: "live s \<Longrightarrow> \<exists>x. s = Live x"
  by (cases s) simp_all

lemma live_update: "live (ds ! k) \<Longrightarrow> live ((ds[i := Live x]) ! k)"
  by (cases "i < length ds"; cases "i = k") (simp_all add: list_update_beyond)

lemma fill_loop_block:
  "block h b = Some ds \<Longrightarrow> i \<le> n \<Longrightarrow> n \<le> length ds \<Longrightarrow> \<forall>k<n. live (ds ! k) \<Longrightarrow>
   fill_loop h (Ptr b 0) x i n =
     Inr (h[b := Some (take i ds @ replicate (n - i) (Live x) @ drop n ds)])"
proof (induction h "Ptr b 0" x i n arbitrary: ds rule: fill_loop.induct)
  case (1 h x i count)
  show ?case
  proof (cases "i < count")
    case False
    with 1 have "i = count" by simp
    with 1 show ?thesis
      by (subst fill_loop.simps) (simp add: block_update_same)
  next
    case True
    let ?h' = "h[b := Some (ds[i := Live x])]"
    have st: "store h (Ptr b 0) i x = Inr ?h'"
      using "1.prems" True by simp
    have bl: "block ?h' b = Some (ds[i := Live x])"
      using "1.prems"(1) by (simp add: block_update block_Some_less)
    have lv: "\<forall>k<count. live ((ds[i := Live x]) ! k)"
      using "1.prems"(4) by (simp add: live_update)
    have "fill_loop ?h' (Ptr b 0) x (i + 1) count =
        Inr (?h'[b := Some (take (i + 1) (ds[i := Live x]) @ replicate (count - (i + 1)) (Live x)
               @ drop count (ds[i := Live x]))])"
      using "1.prems" True lv by (intro "1.hyps"[OF True st bl]) simp_all
    moreover have "take (i + 1) (ds[i := Live x]) = take i ds @ [Live x]"
      using "1.prems" True by (simp add: take_Suc_conv_app_nth)
    moreover have "drop count (ds[i := Live x]) = drop count ds"
      using True by simp
    moreover have "replicate (count - i) (Live x) = Live x # replicate (count - (i + 1)) (Live x)"
      using True by (cases "count - i") simp_all
    ultimately show ?thesis
      using True st by (subst fill_loop.simps) simp
  qed
qed

lemma copy_loop_block:
  "block h d = Some ds \<Longrightarrow> block h s = Some ss \<Longrightarrow> d \<noteq> s \<Longrightarrow> i \<le> n \<Longrightarrow>
   n \<le> length ds \<Longrightarrow> n \<le> length ss \<Longrightarrow> \<forall>k<n. live (ds ! k) \<Longrightarrow> \<forall>k<n. live (ss ! k) \<Longrightarrow>
   copy_loop h (Ptr d 0) (Ptr s 0) i n =
     Inr (h[d := Some (take i ds @ take (n - i) (drop i ss) @ drop n ds)])"
proof (induction h "Ptr d 0" "Ptr s 0" i n arbitrary: ds rule: copy_loop.induct)
  case (1 h i n)
  show ?case
  proof (cases "i < n")
    case False
    with 1 have "i = n" by simp
    with 1 show ?thesis
      by (subst copy_loop.simps) (simp add: block_update_same)
  next
    case True
    with "1.prems"(8) obtain x where x: "ss ! i = Live x"
      using live_cases by blast
    let ?h' = "h[d := Some (ds[i := Live x])]"
    have ld: "load h (Ptr s 0) i = Inr x"
      using "1.prems" True x by simp
    have st: "store h (Ptr d 0) i x = Inr ?h'"
      using "1.prems" True by simp
    have bl: "block ?h' d = Some (ds[i := Live x])" "block ?h' s = Some ss"
      using "1.prems"(1,2,3) by (simp_all add: block_update block_Some_less)
    have lv: "\<forall>k<n. live ((ds[i := Live x]) ! k)"
      using "1.prems"(7) by (simp add: live_update)
    have "copy_loop ?h' (Ptr d 0) (Ptr s 0) (i + 1) n =
        Inr (?h'[d := Some (take (i + 1) (ds[i := Live x]) @ take (n - (i + 1)) (drop (i + 1) ss)
               @ drop n (ds[i := Live x]))])"
      using "1.prems" True lv by (intro "1.hyps"[OF True ld st bl]) simp_all
    moreover have "take (i + 1) (ds[i := Live x]) = take i ds @ [Live x]"
      using "1.prems" True by (simp add: take_Suc_conv_app_nth)
    moreover have "drop n (ds[i := Live x]) = drop n ds"
      using True by simp
    moreover have "take (n - i) (drop i ss) = Live x # take (n - (i + 1)) (drop (i + 1) ss)"
    proof -
      have d: "drop i ss = ss ! i # drop (i + 1) ss"
        using True "1.prems"(6) by (simp add: Cons_nth_drop_Suc)
      have e: "n - i = Suc (n - (i + 1))"
        using True by simp
      show ?thesis by (simp only: d e take_Suc_Cons x)
    qed
    ultimately show ?thesis
      using True st ld by (subst copy_loop.simps) simp
  qed
qed

lemma init_loop_block:
  "block h b = Some ds \<Longrightarrow> i + length init \<le> length ds \<Longrightarrow> \<forall>k<length ds. live (ds ! k) \<Longrightarrow>
   init_loop h (Ptr b 0) i init =
     Inr (h[b := Some (take i ds @ map Live init @ drop (i + length init) ds)])"
proof (induction init arbitrary: h i ds)
  case Nil
  then show ?case by (simp add: block_update_same)
next
  case (Cons x init)
  let ?h' = "h[b := Some (ds[i := Live x])]"
  have bl: "block ?h' b = Some (ds[i := Live x])"
    using Cons.prems(1) by (simp add: block_update block_Some_less)
  have lv: "\<forall>k<length (ds[i := Live x]). live ((ds[i := Live x]) ! k)"
    using Cons.prems(3) by (simp add: live_update)
  have "init_loop ?h' (Ptr b 0) (i + 1) init =
      Inr (?h'[b := Some (take (i + 1) (ds[i := Live x]) @ map Live init
             @ drop (i + 1 + length init) (ds[i := Live x]))])"
    using Cons.prems lv by (intro Cons.IH [OF bl]) simp_all
  moreover have "take (i + 1) (ds[i := Live x]) = take i ds @ [Live x]"
    using Cons.prems by (simp add: take_Suc_conv_app_nth)
  ultimately show ?case
    using Cons.prems by simp
qed

lemma store_shape:
  "store h p i x = Inr h' \<Longrightarrow>
   length h' = length h \<and>
   (\<forall>c. map_option (map live) (block h' c) = map_option (map live) (block h c))"
  by (cases p) (auto simp: block_update map_update list_update_same_conv
      split: option.splits if_splits)

lemma copy_loop_shape:
  "copy_loop h dst src i n = Inr h' \<Longrightarrow>
   length h' = length h \<and>
   (\<forall>c. map_option (map live) (block h' c) = map_option (map live) (block h c))"
proof (induction h dst src i n rule: copy_loop.induct)
  case (1 h dst src i n)
  show ?case
  proof (cases "i < n")
    case False
    with "1.prems" show ?thesis by (subst (asm) copy_loop.simps) simp
  next
    case True
    with "1.prems" obtain x h1 where s: "load h src i = Inr x" "store h dst i x = Inr h1"
      "copy_loop h1 dst src (i + 1) n = Inr h'"
      by (subst (asm) copy_loop.simps) (auto split: sum.splits)
    from "1.IH" [OF True s] store_shape [OF s(2)] show ?thesis by simp
  qed
qed

subsection \<open>Reallocation\<close>

lemma reallocate_null:
  assumes "first v = Null" "last_ptr v = Null" "end_ptr v = Null"
  shows "reallocate dflt h v c =
    Inr (h @ [Some (replicate c (Live dflt))],
         v\<lparr>first := Ptr (length h) 0, last_ptr := Ptr (length h) 0, end_ptr := Ptr (length h) c\<rparr>)"
proof -
  have "copy_loop (h @ [Some (replicate c (Live dflt))]) (Ptr (length h) 0) Null 0 0
      = Inr (h @ [Some (replicate c (Live dflt))])"
    by (subst copy_loop.simps) simp
  then show ?thesis
    using assms by (simp add: reallocate_def new_array_def size_vec_def and_then_def)
qed

lemma reallocate_buf:
  assumes "first v = Ptr b 0" "last_ptr v = Ptr b (length ys)"
    "end_ptr v = Ptr b (length ys + length zs)" "block h b = Some (map Live ys @ zs)"
    "length ys \<le> c"
  shows "reallocate dflt h v c =
    (if list_all live zs then
       Inr ((h @ [Some (map Live ys @ replicate (c - length ys) (Live dflt))])[b := None],
            v\<lparr>first := Ptr (length h) 0, last_ptr := Ptr (length h) (length ys),
              end_ptr := Ptr (length h) c\<rparr>)
     else Inl Undefined_behaviour)"
proof -
  let ?n = "length ys"
  let ?ds = "replicate c (Live dflt)"
  let ?ss = "map Live ys @ zs"
  let ?h1 = "h @ [Some ?ds]"
  have b: "b < length h" using assms(4) by (rule block_Some_less)
  have "copy_loop ?h1 (Ptr (length h) 0) (Ptr b 0) 0 ?n =
      Inr (?h1[length h := Some (take 0 ?ds @ take (?n - 0) (drop 0 ?ss) @ drop ?n ?ds)])"
    using assms b by (intro copy_loop_block) (auto simp: block_append nth_append)
  then have cp: "copy_loop ?h1 (Ptr (length h) 0) (Ptr b 0) 0 ?n =
      Inr (h @ [Some (map Live ys @ replicate (c - ?n) (Live dflt))])"
    by simp
  have "block (h @ [Some (map Live ys @ replicate (c - ?n) (Live dflt))]) b = Some ?ss"
    using assms(4) b by (simp add: block_append)
  then show ?thesis
    using assms cp by (simp add: reallocate_def new_array_def size_vec_def and_then_def)
qed

lemma reallocate_wf:
  assumes "well_formed h v" "all_live h v" "length (elems h v) \<le> c"
  shows "\<exists>h' v'. reallocate dflt h v c = Inr (h', v') \<and> well_formed h' v' \<and> all_live h' v' \<and>
     elems h' v' = elems h v \<and> size_vec v' = size_vec v \<and> capacity v' = Inr c \<and>
     first v' = Ptr (length h) 0 \<and> length h' = Suc (length h)"
  using assms(1)
proof (cases rule: wf_cases)
  case null
  then show ?thesis
    by (simp add: reallocate_null well_formed_def all_live_def block_append elems_def
        size_vec_def capacity_def)
next
  case (buf b ys zs)
  with assms(2,3) have "length ys \<le> c" "list_all live zs" by (simp_all add: buf_view)
  moreover from buf have "b < length h" by (simp add: block_Some_less)
  moreover from this have "length h \<noteq> b" by simp
  ultimately show ?thesis
    using buf by (simp add: reallocate_buf well_formed_def all_live_def block_append block_update
        elems_def size_vec_def capacity_def)
qed

lemma reallocate_dead:
  assumes "well_formed h v" "\<not> all_live h v" "length (elems h v) \<le> c"
  shows "reallocate dflt h v c = Inl Undefined_behaviour"
  using assms(1)
proof (cases rule: wf_cases)
  case null
  with assms(2) show ?thesis by (simp add: null_view)
next
  case (buf b ys zs)
  with assms(2,3) have "length ys \<le> c" "\<not> list_all live zs" by (simp_all add: buf_view)
  with buf show ?thesis by (simp add: reallocate_buf)
qed

lemma reallocate_returns:
  assumes "well_formed h v" "length (elems h v) \<le> c" "reallocate dflt h v c = Inr (h', v')"
  shows "all_live h v \<and> well_formed h' v' \<and> all_live h' v' \<and> elems h' v' = elems h v \<and>
     capacity v' = Inr c \<and> first v' = Ptr (length h) 0"
proof -
  have a: "all_live h v"
    using reallocate_dead [OF assms(1) _ assms(2), of dflt] assms(3) by auto
  from reallocate_wf [OF assms(1) a assms(2), of dflt] assms(3) a show ?thesis by auto
qed

subsection \<open>\<open>push_back\<close> and \<open>emplace_back\<close>\<close>

lemma update_append_replicate:
  "0 < m \<Longrightarrow> (map Live ys @ replicate m d)[length ys := s] = map Live ys @ s # replicate (m - 1) d"
  by (cases m) (simp_all add: list_update_append)

lemma grow_null:
  assumes "first v = Null" "last_ptr v = Null" "end_ptr v = Null"
  shows "grow dflt h v =
    Inr (h @ [Some [Live dflt]],
         v\<lparr>first := Ptr (length h) 0, last_ptr := Ptr (length h) 0, end_ptr := Ptr (length h) 1\<rparr>)"
  using assms by (simp add: grow_def capacity_def and_then_def reallocate_null)

lemma grow_full:
  assumes "first v = Ptr b 0" "last_ptr v = Ptr b (length ys)" "end_ptr v = Ptr b (length ys)"
    "block h b = Some (map Live ys)"
  shows "grow dflt h v =
    Inr ((h @ [Some (map Live ys @ replicate (max 1 (length ys * 2) - length ys) (Live dflt))])
           [b := None],
         v\<lparr>first := Ptr (length h) 0, last_ptr := Ptr (length h) (length ys),
           end_ptr := Ptr (length h) (max 1 (length ys * 2))\<rparr>)"
proof -
  have c: "(if length ys = 0 then 1 else length ys * 2) = max 1 (length ys * 2)"
    by (cases ys) simp_all
  have "length ys \<le> max 1 (length ys * 2)" by simp
  from reallocate_buf [of v b ys "[]" h, OF _ _ _ _ this, of dflt] assms c show ?thesis
    by (simp add: grow_def capacity_def and_then_def)
qed

lemma push_back_null:
  assumes "first v = Null" "last_ptr v = Null" "end_ptr v = Null"
  shows "push_back dflt h v value =
    and_then (read_ref (h @ [Some [Live dflt]]) value) (\<lambda>x.
      Inr (h @ [Some [Live x]],
           v\<lparr>first := Ptr (length h) 0, last_ptr := Ptr (length h) 1, end_ptr := Ptr (length h) 1\<rparr>))"
  using assms
  by (cases "read_ref (h @ [Some [Live dflt]]) value")
     (simp_all add: push_back_def grow_null and_then_def block_append)

lemma push_back_full:
  assumes "first v = Ptr b 0" "last_ptr v = Ptr b (length ys)" "end_ptr v = Ptr b (length ys)"
    "block h b = Some (map Live ys)"
  shows "push_back dflt h v value =
    and_then
      (read_ref ((h @ [Some (map Live ys @
          replicate (max 1 (length ys * 2) - length ys) (Live dflt))])[b := None]) value) (\<lambda>x.
      Inr ((h @ [Some (map Live (ys @ [x]) @
              replicate (max 1 (length ys * 2) - length ys - 1) (Live dflt))])[b := None],
           v\<lparr>first := Ptr (length h) 0, last_ptr := Ptr (length h) (length ys + 1),
             end_ptr := Ptr (length h) (max 1 (length ys * 2))\<rparr>))"
proof -
  let ?m = "max 1 (length ys * 2) - length ys"
  let ?h1 = "(h @ [Some (map Live ys @ replicate ?m (Live dflt))])[b := None]"
  have b: "b < length h" using assms(4) by (rule block_Some_less)
  then have ne: "length h \<noteq> b" by simp
  have m: "0 < ?m" by (cases ys) simp_all
  have bl: "block ?h1 (length h) = Some (map Live ys @ replicate ?m (Live dflt))"
    using ne by (simp add: block_update block_append)
  have lv: "live ((map Live ys @ replicate ?m (Live dflt)) ! length ys)"
    using m by (simp add: nth_append)
  show ?thesis
  proof (cases "read_ref ?h1 value")
    case (Inl e)
    with assms show ?thesis
      by (simp add: push_back_def grow_full and_then_def)
  next
    case (Inr x)
    have "store ?h1 (Ptr (length h) (length ys)) 0 x =
        Inr (?h1[length h := Some ((map Live ys @ replicate ?m (Live dflt))[length ys := Live x])])"
      using bl lv m by simp
    moreover have "?h1[length h := Some ((map Live ys @ replicate ?m (Live dflt))[length ys := Live x])]
        = (h @ [Some (map Live (ys @ [x]) @ replicate (?m - 1) (Live dflt))])[b := None]"
    proof -
      have "(map Live ys @ replicate ?m (Live dflt))[length ys := Live x] =
          map Live (ys @ [x]) @ replicate (?m - 1) (Live dflt)"
        using m by (simp add: update_append_replicate)
      moreover have "((h @ [A])[b := None])[length h := B] = (h @ [B])[b := None]" for A B
        using b by (simp add: list_update_append)
      ultimately show ?thesis by simp
    qed
    ultimately show ?thesis
      using assms Inr by (simp add: push_back_def grow_full and_then_def)
  qed
qed

lemma push_back_room:
  assumes "first v = Ptr b 0" "last_ptr v = Ptr b (length ys)"
    "end_ptr v = Ptr b (length ys + length (z # zs))" "block h b = Some (map Live ys @ z # zs)"
  shows "push_back dflt h v value =
    and_then (read_ref h value) (\<lambda>x.
      if live z then
        Inr (h[b := Some (map Live (ys @ [x]) @ zs)], v\<lparr>last_ptr := Ptr b (length ys + 1)\<rparr>)
      else Inl Undefined_behaviour)"
  using assms
  by (cases "read_ref h value")
     (simp_all add: push_back_def and_then_def nth_append list_update_append)

lemma emplace_back_null:
  assumes "first v = Null" "last_ptr v = Null" "end_ptr v = Null"
  shows "emplace_back dflt h v arg =
    and_then (read_ref (h @ [Some [Live dflt]]) arg) (\<lambda>x.
      Inr (h @ [Some [Live x]],
           v\<lparr>first := Ptr (length h) 0, last_ptr := Ptr (length h) 1, end_ptr := Ptr (length h) 1\<rparr>))"
  using assms
  by (cases "read_ref (h @ [Some [Live dflt]]) arg")
     (simp_all add: emplace_back_def grow_null and_then_def block_append)

lemma emplace_back_full:
  assumes "first v = Ptr b 0" "last_ptr v = Ptr b (length ys)" "end_ptr v = Ptr b (length ys)"
    "block h b = Some (map Live ys)"
  shows "emplace_back dflt h v arg =
    and_then
      (read_ref ((h @ [Some (map Live ys @
          replicate (max 1 (length ys * 2) - length ys) (Live dflt))])[b := None]) arg) (\<lambda>x.
      Inr ((h @ [Some (map Live (ys @ [x]) @
              replicate (max 1 (length ys * 2) - length ys - 1) (Live dflt))])[b := None],
           v\<lparr>first := Ptr (length h) 0, last_ptr := Ptr (length h) (length ys + 1),
             end_ptr := Ptr (length h) (max 1 (length ys * 2))\<rparr>))"
proof -
  let ?m = "max 1 (length ys * 2) - length ys"
  let ?h1 = "(h @ [Some (map Live ys @ replicate ?m (Live dflt))])[b := None]"
  have b: "b < length h" using assms(4) by (rule block_Some_less)
  then have ne: "length h \<noteq> b" by simp
  have m: "0 < ?m" by (cases ys) simp_all
  have bl: "block ?h1 (length h) = Some (map Live ys @ replicate ?m (Live dflt))"
    using ne by (simp add: block_update block_append)
  show ?thesis
  proof (cases "read_ref ?h1 arg")
    case (Inl e)
    with assms show ?thesis
      by (simp add: emplace_back_def grow_full and_then_def)
  next
    case (Inr x)
    have "construct_at ?h1 (Ptr (length h) (length ys)) x =
        Inr (?h1[length h := Some ((map Live ys @ replicate ?m (Live dflt))[length ys := Live x])])"
      using bl m by simp
    moreover have "?h1[length h := Some ((map Live ys @ replicate ?m (Live dflt))[length ys := Live x])]
        = (h @ [Some (map Live (ys @ [x]) @ replicate (?m - 1) (Live dflt))])[b := None]"
    proof -
      have "(map Live ys @ replicate ?m (Live dflt))[length ys := Live x] =
          map Live (ys @ [x]) @ replicate (?m - 1) (Live dflt)"
        using m by (simp add: update_append_replicate)
      moreover have "((h @ [A])[b := None])[length h := B] = (h @ [B])[b := None]" for A B
        using b by (simp add: list_update_append)
      ultimately show ?thesis by simp
    qed
    ultimately show ?thesis
      using assms Inr by (simp add: emplace_back_def grow_full and_then_def)
  qed
qed

lemma emplace_back_room:
  assumes "first v = Ptr b 0" "last_ptr v = Ptr b (length ys)"
    "end_ptr v = Ptr b (length ys + length (z # zs))" "block h b = Some (map Live ys @ z # zs)"
  shows "emplace_back dflt h v arg =
    and_then (read_ref h arg) (\<lambda>x.
      Inr (h[b := Some (map Live (ys @ [x]) @ zs)], v\<lparr>last_ptr := Ptr b (length ys + 1)\<rparr>))"
  using assms
  by (cases "read_ref h arg")
     (simp_all add: emplace_back_def and_then_def nth_append list_update_append)

lemma buf_state:
  assumes "first v = Ptr b 0" "last_ptr v = Ptr b n" "end_ptr v = Ptr b c"
    "block h b = Some (map Live ys @ zs)" "n = length ys" "c = length ys + length zs"
  shows "well_formed h v \<and> size_vec v = Inr (length ys) \<and> capacity v = Inr c \<and>
     elems h v = ys \<and> all_live h v = list_all live zs"
  using assms by (simp add: buf_view)

lemma append_full_state:
  fixes h :: "'a heap" and x dflt :: 'a and v :: vector
  assumes "block h b = Some (map Live ys)"
  defines "c' \<equiv> max 1 (length ys * 2)"
  defines "h' \<equiv> (h @ [Some (map Live (ys @ [x]) @ replicate (c' - length ys - 1) (Live dflt))])
      [b := None]"
  defines "v' \<equiv> v\<lparr>first := Ptr (length h) 0, last_ptr := Ptr (length h) (length ys + 1),
      end_ptr := Ptr (length h) c'\<rparr>"
  shows "well_formed h' v' \<and> size_vec v' = Inr (length ys + 1) \<and> capacity v' = Inr c' \<and>
     elems h' v' = ys @ [x] \<and> all_live h' v'"
proof -
  have b: "b < length h" using assms(1) by (rule block_Some_less)
  then have ne: "length h \<noteq> b" by simp
  have lt: "length ys < c'" unfolding c'_def by (cases ys) simp_all
  have "well_formed h' v' \<and> size_vec v' = Inr (length (ys @ [x])) \<and> capacity v' = Inr c' \<and>
     elems h' v' = ys @ [x] \<and>
     all_live h' v' = list_all live (replicate (c' - length ys - 1) (Live dflt))"
    using ne lt by (intro buf_state [where b = "length h"])
      (simp_all add: h'_def v'_def block_update block_append)
  then show ?thesis by simp
qed

lemma append_room_state:
  fixes h :: "'a heap" and x :: 'a and v :: vector
  assumes "first v = Ptr b 0" "block h b = Some (map Live ys @ z # zs)"
    "end_ptr v = Ptr b (length ys + length (z # zs))"
  defines "h' \<equiv> h[b := Some (map Live (ys @ [x]) @ zs)]"
  defines "v' \<equiv> v\<lparr>last_ptr := Ptr b (length ys + 1)\<rparr>"
  shows "well_formed h' v' \<and> size_vec v' = Inr (length ys + 1) \<and>
     capacity v' = Inr (length ys + length (z # zs)) \<and>
     elems h' v' = ys @ [x] \<and> all_live h' v' = list_all live zs"
proof -
  have b: "b < length h" using assms(2) by (rule block_Some_less)
  have "well_formed h' v' \<and> size_vec v' = Inr (length (ys @ [x])) \<and>
     capacity v' = Inr (length ys + length (z # zs)) \<and>
     elems h' v' = ys @ [x] \<and> all_live h' v' = list_all live zs"
    using b assms(1,3) by (intro buf_state [where b = b])
      (simp_all add: h'_def v'_def block_update)
  then show ?thesis by simp
qed

lemma append_null_state:
  fixes h :: "'a heap" and x :: 'a and v :: vector
  defines "h' \<equiv> h @ [Some [Live x]]"
  defines "v' \<equiv> v\<lparr>first := Ptr (length h) 0, last_ptr := Ptr (length h) 1,
      end_ptr := Ptr (length h) 1\<rparr>"
  shows "well_formed h' v' \<and> size_vec v' = Inr 1 \<and> capacity v' = Inr 1 \<and>
     elems h' v' = [x] \<and> all_live h' v'"
proof -
  have "well_formed h' v' \<and> size_vec v' = Inr (length [x]) \<and> capacity v' = Inr 1 \<and>
     elems h' v' = [x] \<and> all_live h' v' = list_all live ([] :: 'a slot list)"
    by (intro buf_state [where b = "length h"]) (simp_all add: h'_def v'_def block_append)
  then show ?thesis by simp
qed

lemma push_back_wf:
  assumes "well_formed h v" "push_back dflt h v value = Inr (h', v')"
  shows "well_formed h' v' \<and> (all_live h v \<longrightarrow> all_live h' v')"
  using assms(1)
proof (cases rule: wf_cases)
  case null
  from assms(2) obtain x where "h' = h @ [Some [Live x]]"
    "v' = v\<lparr>first := Ptr (length h) 0, last_ptr := Ptr (length h) 1, end_ptr := Ptr (length h) 1\<rparr>"
    by (auto simp: push_back_null [OF null] and_then_def split: sum.splits)
  with append_null_state [of h x v] show ?thesis by simp
next
  case (buf b ys zs)
  show ?thesis
  proof (cases zs)
    case Nil
    with buf have f: "end_ptr v = Ptr b (length ys)" "block h b = Some (map Live ys)"
      by simp_all
    from assms(2) obtain x where
      "h' = (h @ [Some (map Live (ys @ [x]) @
          replicate (max 1 (length ys * 2) - length ys - 1) (Live dflt))])[b := None]"
      "v' = v\<lparr>first := Ptr (length h) 0, last_ptr := Ptr (length h) (length ys + 1),
          end_ptr := Ptr (length h) (max 1 (length ys * 2))\<rparr>"
      by (auto simp: push_back_full [OF buf(1,2) f] and_then_def split: sum.splits)
    with append_full_state [OF f(2), of x dflt v] show ?thesis by simp
  next
    case (Cons z zs')
    with buf have f: "end_ptr v = Ptr b (length ys + length (z # zs'))"
      "block h b = Some (map Live ys @ z # zs')" by simp_all
    from assms(2) obtain x where x: "live z"
      "h' = h[b := Some (map Live (ys @ [x]) @ zs')]"
      "v' = v\<lparr>last_ptr := Ptr b (length ys + 1)\<rparr>"
      by (auto simp: push_back_room [OF buf(1,2) f] and_then_def split: sum.splits if_splits)
    have "all_live h v = list_all live (z # zs')"
      using buf_view(4) [OF buf] Cons by simp
    with append_room_state [OF buf(1) f(2,1), of x] x show ?thesis by simp
  qed
qed

lemma emplace_back_wf:
  assumes "well_formed h v" "emplace_back dflt h v arg = Inr (h', v')"
  shows "well_formed h' v' \<and> (all_live h v \<longrightarrow> all_live h' v')"
  using assms(1)
proof (cases rule: wf_cases)
  case null
  from assms(2) obtain x where "h' = h @ [Some [Live x]]"
    "v' = v\<lparr>first := Ptr (length h) 0, last_ptr := Ptr (length h) 1, end_ptr := Ptr (length h) 1\<rparr>"
    by (auto simp: emplace_back_null [OF null] and_then_def split: sum.splits)
  with append_null_state [of h x v] show ?thesis by simp
next
  case (buf b ys zs)
  show ?thesis
  proof (cases zs)
    case Nil
    with buf have f: "end_ptr v = Ptr b (length ys)" "block h b = Some (map Live ys)"
      by simp_all
    from assms(2) obtain x where
      "h' = (h @ [Some (map Live (ys @ [x]) @
          replicate (max 1 (length ys * 2) - length ys - 1) (Live dflt))])[b := None]"
      "v' = v\<lparr>first := Ptr (length h) 0, last_ptr := Ptr (length h) (length ys + 1),
          end_ptr := Ptr (length h) (max 1 (length ys * 2))\<rparr>"
      by (auto simp: emplace_back_full [OF buf(1,2) f] and_then_def split: sum.splits)
    with append_full_state [OF f(2), of x dflt v] show ?thesis by simp
  next
    case (Cons z zs')
    with buf have f: "end_ptr v = Ptr b (length ys + length (z # zs'))"
      "block h b = Some (map Live ys @ z # zs')" by simp_all
    from assms(2) obtain x where x:
      "h' = h[b := Some (map Live (ys @ [x]) @ zs')]"
      "v' = v\<lparr>last_ptr := Ptr b (length ys + 1)\<rparr>"
      by (auto simp: emplace_back_room [OF buf(1,2) f] and_then_def split: sum.splits)
    have "all_live h v = list_all live (z # zs')"
      using buf_view(4) [OF buf] Cons by simp
    with append_room_state [OF buf(1) f(2,1), of x] x show ?thesis by simp
  qed
qed

lemma push_back_step:
  assumes "well_formed h v" "all_live h v" "capacity v = Inr c"
  shows "\<exists>h' v'. push_back dflt h v (Object x) = Inr (h', v') \<and> well_formed h' v' \<and>
     all_live h' v' \<and> elems h' v' = elems h v @ [x] \<and>
     capacity v' = Inr (if length (elems h v) = c then max 1 (c * 2) else c)"
  using assms(1)
proof (cases rule: wf_cases)
  case null
  with assms(3) have "c = 0" by (simp add: capacity_def)
  with append_null_state [of h x v] null show ?thesis
    by (simp add: push_back_null and_then_def null_view)
next
  case (buf b ys zs)
  with assms(3) have c: "c = length ys + length zs" by (simp add: capacity_def)
  have e: "elems h v = ys" using buf by (simp add: buf_view)
  show ?thesis
  proof (cases zs)
    case Nil
    with buf have f: "end_ptr v = Ptr b (length ys)" "block h b = Some (map Live ys)"
      by simp_all
    from append_full_state [OF f(2), of x dflt v] c e Nil show ?thesis
      by (simp add: push_back_full [OF buf(1,2) f] and_then_def)
  next
    case (Cons z zs')
    with buf have f: "end_ptr v = Ptr b (length ys + length (z # zs'))"
      "block h b = Some (map Live ys @ z # zs')" by simp_all
    from assms(2) buf_view(4) [OF buf] Cons have "live z" "list_all live zs'" by simp_all
    with append_room_state [OF buf(1) f(2,1), of x] c e Cons show ?thesis
      by (simp add: push_back_room [OF buf(1,2) f] and_then_def)
  qed
qed

lemma push_back_own_element:
  assumes "well_formed h v" "size_vec v = capacity v" "k < length (elems h v)"
    "subscript v k = Inr r"
  shows "push_back dflt h v (Slot r) = Inl Undefined_behaviour"
  using assms(1)
proof (cases rule: wf_cases)
  case null
  with assms(3) show ?thesis by (simp add: null_view)
next
  case (buf b ys zs)
  with assms(2) have "zs = []" by (simp add: size_vec_def capacity_def)
  with buf have f: "end_ptr v = Ptr b (length ys)" "block h b = Some (map Live ys)" by simp_all
  have b: "b < length h" using buf(4) by (rule block_Some_less)
  from assms(4) buf(1) have r: "r = Ptr b k" by (simp add: subscript_def)
  from push_back_full [OF buf(1,2) f, of dflt "Slot r"] r b show ?thesis
    by (simp add: and_then_def block_update block_append)
qed

lemma push_all_run:
  assumes "well_formed h v" "all_live h v" "capacity v = Inr c"
  shows "\<exists>h' v'. push_all dflt h v (map Object xs) = Inr (h', v') \<and> well_formed h' v' \<and>
     all_live h' v' \<and> elems h' v' = elems h v @ xs \<and>
     capacity v' = Inr (doubling (length (elems h v)) c (length xs))"
  using assms
proof (induction xs arbitrary: h v c)
  case Nil
  then show ?case by simp
next
  case (Cons x xs)
  from push_back_step [OF Cons.prems, of dflt x] obtain h1 v1 where
    p: "push_back dflt h v (Object x) = Inr (h1, v1)" "well_formed h1 v1" "all_live h1 v1"
      "elems h1 v1 = elems h v @ [x]"
      "capacity v1 = Inr (if length (elems h v) = c then max 1 (c * 2) else c)"
    by blast
  from Cons.IH [OF p(2,3,5)] p(1,4) show ?case
    by simp
qed

lemma doubling_least_power:
  assumes "(n = 0 \<and> c = 0) \<or> (\<exists>j. c = 2 ^ j \<and> n \<le> c \<and> c < 2 * n)"
  shows "(n + k = 0 \<and> doubling n c k = 0) \<or>
     (\<exists>j. doubling n c k = 2 ^ j \<and> n + k \<le> doubling n c k \<and> doubling n c k < 2 * (n + k))"
  using assms
proof (induction k arbitrary: n c)
  case 0
  then show ?case by simp
next
  case (Suc k)
  let ?c' = "if n = c then max 1 (c * 2) else c"
  have "\<exists>j. ?c' = 2 ^ j \<and> Suc n \<le> ?c' \<and> ?c' < 2 * Suc n"
  proof (cases "n = 0")
    case True
    with Suc.prems have "c = 0" by auto
    with True have "?c' = 2 ^ 0 \<and> Suc n \<le> ?c' \<and> ?c' < 2 * Suc n" by simp
    then show ?thesis by blast
  next
    case False
    with Suc.prems obtain j where j: "c = 2 ^ j" "n \<le> c" "c < 2 * n" by auto
    show ?thesis
    proof (cases "n = c")
      case True
      with j False have "?c' = 2 ^ Suc j \<and> Suc n \<le> ?c' \<and> ?c' < 2 * Suc n" by auto
      then show ?thesis by blast
    next
      case neq: False
      with j have "?c' = 2 ^ j \<and> Suc n \<le> ?c' \<and> ?c' < 2 * Suc n" by auto
      then show ?thesis by blast
    qed
  qed
  then have "(Suc n = 0 \<and> ?c' = 0) \<or> (\<exists>j. ?c' = 2 ^ j \<and> Suc n \<le> ?c' \<and> ?c' < 2 * Suc n)"
    by blast
  from Suc.IH [OF this] show ?case by simp
qed

text \<open>
  C1. The claim holds for arguments that are objects outside the container's buffer and
  fails, by a use after free, for an argument that refers to an element of the container
  when the container is full.

  An append of an outside object to a well-formed container with all slots live returns,
  adds the value after the former elements, and keeps the capacity \<open>c\<close> unless it finds
  the length equal to \<open>c\<close>, when the new capacity is \<open>max 1 (c * 2)\<close>. From a
  default-constructed container a run of \<open>k\<close> such \<open>push_back\<close> calls returns; the
  container then has length \<open>k\<close>, holds the pushed values in call order, and its capacity
  is what the doubling rule gives from capacity 0: it is at least \<open>k\<close>, and it is 0 (for
  \<open>k = 0\<close>) or the power of two below \<open>2 * k\<close>, so the capacities met are 0, 1, 2, 4,
  8, ...

  But \<open>v.push_back(v[k])\<close> on a full container is undefined: \<open>grow\<close> releases the
  buffer with \<open>delete[] first\<close> before the assignment \<open>*last++ = value\<close> reads through
  the reference, which then points into the released array.
\<close>

theorem push_back_sequence:
  "(well_formed h v \<and> all_live h v \<and> capacity v = Inr c \<longrightarrow>
      (\<exists>h' v'. push_back dflt h v (Object x) = Inr (h', v') \<and> well_formed h' v' \<and>
         size_vec v' = Inr (length (elems h v) + 1) \<and> elems h' v' = elems h v @ [x] \<and>
         capacity v' = Inr (if length (elems h v) = c then max 1 (c * 2) else c))) \<and>
   (\<exists>h' v'. push_all dflt h0 vector_default (map Object xs) = Inr (h', v') \<and>
      well_formed h' v' \<and> size_vec v' = Inr (length xs) \<and> elems h' v' = xs \<and>
      capacity v' = Inr (doubling 0 0 (length xs)) \<and>
      length xs \<le> doubling 0 0 (length xs) \<and>
      ((length xs = 0 \<and> doubling 0 0 (length xs) = 0) \<or>
       (\<exists>j. doubling 0 0 (length xs) = 2 ^ j \<and> doubling 0 0 (length xs) < 2 * length xs))) \<and>
   (well_formed h v \<and> size_vec v = capacity v \<and> k < length (elems h v) \<and>
    subscript v k = Inr r \<longrightarrow>
      push_back dflt h v (Slot r) = Inl Undefined_behaviour)"
proof (intro conjI impI)
  assume a: "well_formed h v \<and> all_live h v \<and> capacity v = Inr c"
  then obtain h' v' where
    p: "push_back dflt h v (Object x) = Inr (h', v')" "well_formed h' v'"
      "elems h' v' = elems h v @ [x]"
      "capacity v' = Inr (if length (elems h v) = c then max 1 (c * 2) else c)"
    using push_back_step [of h v c dflt x] by blast
  from p(2,3) have "size_vec v' = Inr (length (elems h v) + 1)"
    using wf_size_elems by fastforce
  with p show "\<exists>h' v'. push_back dflt h v (Object x) = Inr (h', v') \<and> well_formed h' v' \<and>
         size_vec v' = Inr (length (elems h v) + 1) \<and> elems h' v' = elems h v @ [x] \<and>
         capacity v' = Inr (if length (elems h v) = c then max 1 (c * 2) else c)"
    by blast
next
  have w: "well_formed h0 vector_default" "all_live h0 vector_default"
    and c: "capacity vector_default = Inr 0"
    and e: "elems h0 vector_default = []"
    by (simp_all add: well_formed_def all_live_def vector_default_def capacity_def elems_def)
  from push_all_run [OF w c, of dflt xs] e obtain h' v' where
    r: "push_all dflt h0 vector_default (map Object xs) = Inr (h', v')" "well_formed h' v'"
      "elems h' v' = xs" "capacity v' = Inr (doubling 0 0 (length xs))"
    by auto
  from r(2,3) have s: "size_vec v' = Inr (length xs)"
    using wf_size_elems by fastforce
  have "(0 + length xs = 0 \<and> doubling 0 0 (length xs) = 0) \<or>
     (\<exists>j. doubling 0 0 (length xs) = 2 ^ j \<and> 0 + length xs \<le> doubling 0 0 (length xs) \<and>
        doubling 0 0 (length xs) < 2 * (0 + length xs))"
    by (rule doubling_least_power) simp
  then have "length xs \<le> doubling 0 0 (length xs) \<and>
     ((length xs = 0 \<and> doubling 0 0 (length xs) = 0) \<or>
      (\<exists>j. doubling 0 0 (length xs) = 2 ^ j \<and> doubling 0 0 (length xs) < 2 * length xs))"
    by auto
  with r s show "\<exists>h' v'. push_all dflt h0 vector_default (map Object xs) = Inr (h', v') \<and>
      well_formed h' v' \<and> size_vec v' = Inr (length xs) \<and> elems h' v' = xs \<and>
      capacity v' = Inr (doubling 0 0 (length xs)) \<and>
      length xs \<le> doubling 0 0 (length xs) \<and>
      ((length xs = 0 \<and> doubling 0 0 (length xs) = 0) \<or>
       (\<exists>j. doubling 0 0 (length xs) = 2 ^ j \<and> doubling 0 0 (length xs) < 2 * length xs))"
    by blast
next
  assume "well_formed h v \<and> size_vec v = capacity v \<and> k < length (elems h v) \<and>
    subscript v k = Inr r"
  then show "push_back dflt h v (Slot r) = Inl Undefined_behaviour"
    using push_back_own_element [of h v k r dflt] by blast
qed

theorem push_back_sequence_witness:
  "push_back (0 :: nat) [] vector_default (Object 1) =
     Inr ([Some [Live 1]], \<lparr>first = Ptr 0 0, last_ptr = Ptr 0 1, end_ptr = Ptr 0 1\<rparr>) \<and>
   well_formed [Some [Live (1 :: nat)]] \<lparr>first = Ptr 0 0, last_ptr = Ptr 0 1, end_ptr = Ptr 0 1\<rparr> \<and>
   all_live [Some [Live (1 :: nat)]] \<lparr>first = Ptr 0 0, last_ptr = Ptr 0 1, end_ptr = Ptr 0 1\<rparr> \<and>
   size_vec \<lparr>first = Ptr 0 0, last_ptr = Ptr 0 1, end_ptr = Ptr 0 1\<rparr> = Inr 1 \<and>
   capacity \<lparr>first = Ptr 0 0, last_ptr = Ptr 0 1, end_ptr = Ptr 0 1\<rparr> = Inr 1 \<and>
   subscript \<lparr>first = Ptr 0 0, last_ptr = Ptr 0 1, end_ptr = Ptr 0 1\<rparr> 0 = Inr (Ptr 0 0) \<and>
   push_back (0 :: nat) [Some [Live 1]] \<lparr>first = Ptr 0 0, last_ptr = Ptr 0 1, end_ptr = Ptr 0 1\<rparr>
     (Slot (Ptr 0 0)) = Inl Undefined_behaviour \<and>
   push_all (0 :: nat) [] vector_default [Object 1, Slot (Ptr 0 0)] = Inl Undefined_behaviour \<and>
   push_back (0 :: nat) [Some [Live 1]] \<lparr>first = Ptr 0 0, last_ptr = Ptr 0 1, end_ptr = Ptr 0 1\<rparr>
     (Object 2) =
     Inr ([None, Some [Live 1, Live 2]],
          \<lparr>first = Ptr 1 0, last_ptr = Ptr 1 2, end_ptr = Ptr 1 2\<rparr>) \<and>
   push_all (0 :: nat) [] vector_default (map Object [7, 8, 9]) =
     Inr ([None, None, Some [Live 7, Live 8, Live 9, Live 0]],
          \<lparr>first = Ptr 2 0, last_ptr = Ptr 2 3, end_ptr = Ptr 2 4\<rparr>) \<and>
   doubling 0 0 3 = 4"
proof -
  let ?h = "[Some [Live (1 :: nat)]]"
  let ?v = "\<lparr>first = Ptr 0 0, last_ptr = Ptr 0 1, end_ptr = Ptr 0 1\<rparr>"
  have w: "well_formed ?h ?v" "all_live ?h ?v"
    by (simp_all add: well_formed_def all_live_def block_def)
  have c: "size_vec ?v = Inr 1" "capacity ?v = Inr 1" "subscript ?v 0 = Inr (Ptr 0 0)"
    by (simp_all add: size_vec_def capacity_def subscript_def)
  have e: "elems ?h ?v = [1]"
    by (simp add: elems_def block_def size_vec_def)
  have ev: "push_back (0 :: nat) [] vector_default (Object 1) = Inr (?h, ?v)"
    "push_back (0 :: nat) ?h ?v (Slot (Ptr 0 0)) = Inl Undefined_behaviour"
    "push_all (0 :: nat) [] vector_default [Object 1, Slot (Ptr 0 0)] = Inl Undefined_behaviour"
    "push_back (0 :: nat) ?h ?v (Object 2) =
       Inr ([None, Some [Live 1, Live 2]],
            \<lparr>first = Ptr 1 0, last_ptr = Ptr 1 2, end_ptr = Ptr 1 2\<rparr>)"
    "push_all (0 :: nat) [] vector_default (map Object [7, 8, 9]) =
       Inr ([None, None, Some [Live 7, Live 8, Live 9, Live 0]],
            \<lparr>first = Ptr 2 0, last_ptr = Ptr 2 3, end_ptr = Ptr 2 4\<rparr>)"
    "doubling 0 0 3 = 4"
    by code_simp+
  from push_back_sequence [where h = ?h and v = ?v and c = 1 and dflt = 0 and x = 2
      and ?h0.0 = "[]" and xs = "[7, 8, 9]" and k = 0 and r = "Ptr 0 0"]
    w c e ev show ?thesis
    by simp
qed

subsection \<open>\<open>reserve\<close>\<close>

text \<open>
  C6. On a well-formed container with capacity \<open>c\<close>, \<open>reserve(new_cap)\<close> with
  \<open>new_cap \<le> c\<close> changes neither the store nor the container. With \<open>new_cap > c\<close> and
  every slot of the buffer live it moves the container to a fresh array, after which the
  capacity is exactly \<open>new_cap\<close> and the length and the elements, in order, are as before.

  With \<open>new_cap > c\<close> and a destroyed slot in the buffer the call is undefined:
  \<open>pop_back\<close> (and \<open>clear\<close>) run \<open>last->~T()\<close> on a slot of an array obtained
  from \<open>new T[n]\<close>, and \<open>reallocate\<close> releases that array with \<open>delete[] first\<close>,
  which runs the destructor of each of the \<open>n\<close> slots, the destroyed one a second time.
  For \<open>T = std::string\<close> the calls
  \<open>vector<std::string> v{"a", "b"}; v.pop_back(); v.reserve(3);\<close> do so.
\<close>

theorem reserve_spec:
  assumes "well_formed h v"
  shows "\<exists>c. capacity v = Inr c \<and>
     (new_cap > c \<and> all_live h v \<longrightarrow>
        (\<exists>h' v'. reserve dflt h v new_cap = Inr (h', v') \<and> well_formed h' v' \<and>
           all_live h' v' \<and> first v' \<noteq> first v \<and> capacity v' = Inr new_cap \<and>
           size_vec v' = size_vec v \<and> elems h' v' = elems h v)) \<and>
     (new_cap > c \<and> \<not> all_live h v \<longrightarrow>
        reserve dflt h v new_cap = Inl Undefined_behaviour) \<and>
     (new_cap \<le> c \<longrightarrow> reserve dflt h v new_cap = Inr (h, v))"
proof -
  from assms obtain c where c: "capacity v = Inr c" "length (elems h v) \<le> c"
    using wf_capacity by blast
  have "\<exists>h' v'. reserve dflt h v new_cap = Inr (h', v') \<and> well_formed h' v' \<and>
           all_live h' v' \<and> first v' \<noteq> first v \<and> capacity v' = Inr new_cap \<and>
           size_vec v' = size_vec v \<and> elems h' v' = elems h v"
    if "new_cap > c" "all_live h v"
  proof -
    from that c have "length (elems h v) \<le> new_cap" by simp
    from reallocate_wf [OF assms that(2) this, of dflt] obtain h' v' where
      r: "reallocate dflt h v new_cap = Inr (h', v')" "well_formed h' v'" "all_live h' v'"
        "elems h' v' = elems h v" "size_vec v' = size_vec v" "capacity v' = Inr new_cap"
        "first v' = Ptr (length h) 0"
      by blast
    have "first v \<noteq> Ptr (length h) 0"
      using assms by (cases rule: wf_cases) (auto dest: block_Some_less)
    with r that c(1) show ?thesis
      by (simp add: reserve_def and_then_def)
  qed
  moreover have "reserve dflt h v new_cap = Inl Undefined_behaviour"
    if "new_cap > c" "\<not> all_live h v"
  proof -
    from that c have "length (elems h v) \<le> new_cap" by simp
    from reallocate_dead [OF assms that(2) this, of dflt] that(1) c(1) show ?thesis
      by (simp add: reserve_def and_then_def)
  qed
  moreover have "reserve dflt h v new_cap = Inr (h, v)" if "new_cap \<le> c"
    using that c(1) by (simp add: reserve_def and_then_def)
  ultimately show ?thesis using c(1) by simp
qed

theorem reserve_spec_witness:
  "vector_init '''' [] [''a'', ''b''] =
     Inr ([Some [Live ''a'', Live ''b'']],
          \<lparr>first = Ptr 0 0, last_ptr = Ptr 0 2, end_ptr = Ptr 0 2\<rparr>) \<and>
   reserve '''' [Some [Live ''a'', Live ''b'']]
     \<lparr>first = Ptr 0 0, last_ptr = Ptr 0 2, end_ptr = Ptr 0 2\<rparr> 3 =
     Inr ([None, Some [Live ''a'', Live ''b'', Live '''']],
          \<lparr>first = Ptr 1 0, last_ptr = Ptr 1 2, end_ptr = Ptr 1 3\<rparr>) \<and>
   reserve '''' [Some [Live ''a'', Live ''b'']]
     \<lparr>first = Ptr 0 0, last_ptr = Ptr 0 2, end_ptr = Ptr 0 2\<rparr> 2 =
     Inr ([Some [Live ''a'', Live ''b'']],
          \<lparr>first = Ptr 0 0, last_ptr = Ptr 0 2, end_ptr = Ptr 0 2\<rparr>) \<and>
   pop_back False [Some [Live ''a'', Live ''b'']]
     \<lparr>first = Ptr 0 0, last_ptr = Ptr 0 2, end_ptr = Ptr 0 2\<rparr> =
     Inr ([Some [Live ''a'', Dead]],
          \<lparr>first = Ptr 0 0, last_ptr = Ptr 0 1, end_ptr = Ptr 0 2\<rparr>) \<and>
   well_formed [Some [Live ''a'', Dead]]
     \<lparr>first = Ptr 0 0, last_ptr = Ptr 0 1, end_ptr = Ptr 0 2\<rparr> \<and>
   \<not> all_live [Some [Live ''a'', Dead]]
     \<lparr>first = Ptr 0 0, last_ptr = Ptr 0 1, end_ptr = Ptr 0 2\<rparr> \<and>
   capacity \<lparr>first = Ptr 0 0, last_ptr = Ptr 0 1, end_ptr = Ptr 0 2\<rparr> = Inr 2 \<and>
   reserve '''' [Some [Live ''a'', Dead]]
     \<lparr>first = Ptr 0 0, last_ptr = Ptr 0 1, end_ptr = Ptr 0 2\<rparr> 3 = Inl Undefined_behaviour"
proof -
  let ?h = "[Some [Live ''a'', Live ''b'']]"
  let ?v = "\<lparr>first = Ptr 0 0, last_ptr = Ptr 0 2, end_ptr = Ptr 0 2\<rparr>"
  let ?g = "[Some [Live ''a'', Dead]]"
  let ?w = "\<lparr>first = Ptr 0 0, last_ptr = Ptr 0 1, end_ptr = Ptr 0 2\<rparr>"
  have wv: "well_formed ?h ?v" and lv: "all_live ?h ?v"
    by (simp_all add: well_formed_def all_live_def block_def)
  have ww: "well_formed ?g ?w" and lw: "\<not> all_live ?g ?w"
    by (simp_all add: well_formed_def all_live_def block_def)
  have c: "capacity ?v = Inr 2" "capacity ?w = Inr 2"
    by (simp_all add: capacity_def)
  have ev: "vector_init '''' [] [''a'', ''b''] = Inr (?h, ?v)"
    "reserve '''' ?h ?v 3 =
       Inr ([None, Some [Live ''a'', Live ''b'', Live '''']],
            \<lparr>first = Ptr 1 0, last_ptr = Ptr 1 2, end_ptr = Ptr 1 3\<rparr>)"
    "reserve '''' ?h ?v 2 = Inr (?h, ?v)"
    "pop_back False ?h ?v = Inr (?g, ?w)"
    by code_simp+
  from reserve_spec [OF wv, of 3 "''''"] reserve_spec [OF wv, of 2 "''''"]
    reserve_spec [OF ww, of 3 "''''"] wv lv ww lw c ev
  show ?thesis by simp
qed

subsection \<open>\<open>pop_back\<close>\<close>

lemma slots_nth_length: "(map Live ys @ s # zs) ! length ys = s"
  using nth_append_length [of "map Live ys" s zs] by simp

lemma slots_update_length: "(map Live ys @ s # zs)[length ys := t] = map Live ys @ t # zs"
  using list_update_length [of "map Live ys" s zs t] by simp

lemma pop_back_null:
  assumes "first v = Null" "last_ptr v = Null" "end_ptr v = Null"
  shows "pop_back triv h v = Inl (Exit_failure Msg_pop_back)"
  using assms by (simp add: pop_back_def empty_vec_def size_vec_def and_then_def)

lemma pop_back_empty:
  assumes "first v = Ptr b 0" "last_ptr v = Ptr b 0"
  shows "pop_back triv h v = Inl (Exit_failure Msg_pop_back)"
  using assms by (simp add: pop_back_def empty_vec_def size_vec_def and_then_def)

lemma pop_back_buf:
  assumes "first v = Ptr b 0" "last_ptr v = Ptr b (Suc (length ys))"
    "block h b = Some (map Live ys @ Live y # zs)"
  shows "pop_back triv h v =
     Inr (if triv then h else h[b := Some (map Live ys @ Dead # zs)],
          v\<lparr>last_ptr := Ptr b (length ys)\<rparr>)"
  using assms
  by (simp add: pop_back_def empty_vec_def size_vec_def and_then_def slots_nth_length
      slots_update_length)

lemma pop_back_wf:
  assumes "well_formed h v" "pop_back triv h v = Inr (h', v')"
  shows "well_formed h' v' \<and> (triv \<and> all_live h v \<longrightarrow> all_live h' v') \<and>
     length h' = length h \<and> first v' = first v \<and> capacity v' = capacity v \<and>
     elems h' v' = butlast (elems h v) \<and> elems h v \<noteq> [] \<and>
     (\<forall>b'. first v \<noteq> Ptr b' 0 \<longrightarrow> block h' b' = block h b')"
  using assms(1)
proof (cases rule: wf_cases)
  case null
  with assms(2) show ?thesis by (simp add: pop_back_null)
next
  case (buf b ys zs)
  show ?thesis
  proof (cases ys rule: rev_cases)
    case Nil
    with buf assms(2) show ?thesis by (simp add: pop_back_empty)
  next
    case (snoc ys' y)
    with buf have blk: "block h b = Some (map Live ys' @ Live y # zs)" by simp
    from buf snoc have l: "last_ptr v = Ptr b (Suc (length ys'))" by simp
    from blk have bl: "b < length h" by (rule block_Some_less)
    let ?s = "if triv then Live y else Dead"
    from assms(2) pop_back_buf [OF buf(1) l blk, of triv]
    have h': "h' = (if triv then h else h[b := Some (map Live ys' @ Dead # zs)])"
      and v': "v' = v\<lparr>last_ptr := Ptr b (length ys')\<rparr>"
      by simp_all
    from h' blk bl have blk': "block h' b = Some (map Live ys' @ ?s # zs)"
      by (simp add: block_update)
    from v' buf snoc have p: "first v' = Ptr b 0" "last_ptr v' = Ptr b (length ys')"
      "end_ptr v' = Ptr b (length ys' + length (?s # zs))"
      by simp_all
    note bv' = buf_view [OF p blk']
    note bv = buf_view [OF buf]
    from h' have len: "length h' = length h" by simp
    from h' have fr: "\<forall>b'. first v \<noteq> Ptr b' 0 \<longrightarrow> block h' b' = block h b'"
      using buf(1) by (simp add: block_update)
    from bv'(4) bv(4) have al: "triv \<and> all_live h v \<longrightarrow> all_live h' v'" by simp
    from bv'(2) bv(2) snoc have cap: "capacity v' = capacity v" by simp
    from bv'(3) bv(3) snoc have el: "elems h' v' = butlast (elems h v)" "elems h v \<noteq> []"
      by simp_all
    from bv'(5) al len p(1) buf(1) cap el fr show ?thesis by simp
  qed
qed

lemma pop_back_returns:
  assumes "well_formed h v" "elems h v \<noteq> []"
  shows "\<exists>h' v'. pop_back triv h v = Inr (h', v') \<and> (triv \<longrightarrow> h' = h) \<and>
     (\<not> triv \<longrightarrow> \<not> all_live h' v')"
  using assms(1)
proof (cases rule: wf_cases)
  case null
  with assms(2) show ?thesis by (simp add: null_view)
next
  case (buf b ys zs)
  with assms(2) have "ys \<noteq> []" by (simp add: buf_view)
  then obtain ys' y where snoc: "ys = ys' @ [y]" by (cases ys rule: rev_cases) auto
  with buf have blk: "block h b = Some (map Live ys' @ Live y # zs)" by simp
  from buf snoc have l: "last_ptr v = Ptr b (Suc (length ys'))" by simp
  from blk have bl: "b < length h" by (rule block_Some_less)
  have "\<not> all_live (h[b := Some (map Live ys' @ Dead # zs)]) (v\<lparr>last_ptr := Ptr b (length ys')\<rparr>)"
    using buf(1) bl by (simp add: all_live_def block_update)
  with pop_back_buf [OF buf(1) l blk, of triv] show ?thesis by simp
qed

text \<open>
  C5. On a well-formed container with \<open>n\<close> live elements: for \<open>n = 0\<close>, \<open>pop_back\<close>
  writes its line on the error stream and exits; for \<open>n > 0\<close> it returns, the length is
  \<open>n - 1\<close>, the elements are the former ones without the last, and the capacity (and the
  array) is the same. The store is unchanged for a trivially destructible \<open>T\<close>; otherwise
  the slot of the removed element is left destroyed.
\<close>

theorem pop_back_spec:
  assumes "well_formed h v"
  shows "\<exists>n. size_vec v = Inr n \<and> n = length (elems h v) \<and>
     (n = 0 \<longrightarrow> pop_back triv h v = Inl (Exit_failure Msg_pop_back)) \<and>
     (0 < n \<longrightarrow>
        (\<exists>h' v'. pop_back triv h v = Inr (h', v') \<and> well_formed h' v' \<and>
           size_vec v' = Inr (n - 1) \<and>
           elems h' v' = butlast (elems h v) \<and> elems h' v' = take (n - 1) (elems h v) \<and>
           capacity v' = capacity v \<and> first v' = first v \<and>
           (triv \<longrightarrow> h' = h) \<and> (\<not> triv \<longrightarrow> \<not> all_live h' v')))"
proof -
  let ?n = "length (elems h v)"
  from assms have s: "size_vec v = Inr ?n" by (rule wf_size_elems)
  have e: "pop_back triv h v = Inl (Exit_failure Msg_pop_back)" if "?n = 0"
    using assms
  proof (cases rule: wf_cases)
    case null
    then show ?thesis by (simp add: pop_back_null)
  next
    case (buf b ys zs)
    with that have "ys = []" by (simp add: buf_view)
    with buf show ?thesis by (simp add: pop_back_empty)
  qed
  have r: "\<exists>h' v'. pop_back triv h v = Inr (h', v') \<and> well_formed h' v' \<and>
           size_vec v' = Inr (?n - 1) \<and>
           elems h' v' = butlast (elems h v) \<and> elems h' v' = take (?n - 1) (elems h v) \<and>
           capacity v' = capacity v \<and> first v' = first v \<and>
           (triv \<longrightarrow> h' = h) \<and> (\<not> triv \<longrightarrow> \<not> all_live h' v')" if "0 < ?n"
  proof -
    from that have ne: "elems h v \<noteq> []" by simp
    from pop_back_returns [OF assms ne, of triv] obtain h' v' where
      p: "pop_back triv h v = Inr (h', v')" "triv \<longrightarrow> h' = h" "\<not> triv \<longrightarrow> \<not> all_live h' v'"
      by blast
    from pop_back_wf [OF assms p(1)] have w: "well_formed h' v'" "first v' = first v"
      "capacity v' = capacity v" "elems h' v' = butlast (elems h v)"
      by simp_all
    from w(1,4) have "size_vec v' = Inr (?n - 1)"
      using wf_size_elems [of h' v'] by simp
    moreover from w(4) have "elems h' v' = take (?n - 1) (elems h v)"
      by (simp add: butlast_conv_take)
    ultimately show ?thesis using p w by blast
  qed
  from s e r show ?thesis by blast
qed

theorem pop_back_spec_witness:
  "well_formed [Some [Live 10, Live 20, Live 30, Live (0 :: nat)]]
     \<lparr>first = Ptr 0 0, last_ptr = Ptr 0 3, end_ptr = Ptr 0 4\<rparr> \<and>
   elems [Some [Live 10, Live 20, Live 30, Live (0 :: nat)]]
     \<lparr>first = Ptr 0 0, last_ptr = Ptr 0 3, end_ptr = Ptr 0 4\<rparr> = [10, 20, 30] \<and>
   pop_back True [Some [Live 10, Live 20, Live 30, Live (0 :: nat)]]
     \<lparr>first = Ptr 0 0, last_ptr = Ptr 0 3, end_ptr = Ptr 0 4\<rparr> =
     Inr ([Some [Live 10, Live 20, Live 30, Live 0]],
          \<lparr>first = Ptr 0 0, last_ptr = Ptr 0 2, end_ptr = Ptr 0 4\<rparr>) \<and>
   pop_back False [Some [Live 10, Live 20, Live 30, Live (0 :: nat)]]
     \<lparr>first = Ptr 0 0, last_ptr = Ptr 0 3, end_ptr = Ptr 0 4\<rparr> =
     Inr ([Some [Live 10, Live 20, Dead, Live 0]],
          \<lparr>first = Ptr 0 0, last_ptr = Ptr 0 2, end_ptr = Ptr 0 4\<rparr>) \<and>
   elems [Some [Live 10, Live 20, Dead, Live (0 :: nat)]]
     \<lparr>first = Ptr 0 0, last_ptr = Ptr 0 2, end_ptr = Ptr 0 4\<rparr> = [10, 20] \<and>
   well_formed ([] :: nat heap) vector_default \<and>
   pop_back True ([] :: nat heap) vector_default = Inl (Exit_failure Msg_pop_back)"
proof -
  let ?h = "[Some [Live 10, Live 20, Live 30, Live (0 :: nat)]]"
  let ?v = "\<lparr>first = Ptr 0 0, last_ptr = Ptr 0 3, end_ptr = Ptr 0 4\<rparr>"
  have w: "well_formed ?h ?v"
    by (simp add: well_formed_def block_def)
  have w0: "well_formed ([] :: nat heap) vector_default"
    by (simp add: well_formed_def vector_default_def)
  have ev: "elems ?h ?v = [10, 20, 30]"
    "pop_back True ?h ?v =
       Inr (?h, \<lparr>first = Ptr 0 0, last_ptr = Ptr 0 2, end_ptr = Ptr 0 4\<rparr>)"
    "pop_back False ?h ?v =
       Inr ([Some [Live 10, Live 20, Dead, Live 0]],
            \<lparr>first = Ptr 0 0, last_ptr = Ptr 0 2, end_ptr = Ptr 0 4\<rparr>)"
    "elems [Some [Live 10, Live 20, Dead, Live (0 :: nat)]]
       \<lparr>first = Ptr 0 0, last_ptr = Ptr 0 2, end_ptr = Ptr 0 4\<rparr> = [10, 20]"
    "elems ([] :: nat heap) vector_default = []"
    by code_simp+
  from pop_back_spec [OF w, of True] pop_back_spec [OF w, of False]
    pop_back_spec [OF w0, of True] w w0 ev
  show ?thesis by simp
qed

subsection \<open>Move construction\<close>

text \<open>
  C7. Move construction hands the three pointers of the source to the new container and
  sets the source's to null, without touching the store: the new container has the
  buffer, the length, the capacity and the elements the source had, and the source has
  no buffer, length 0 and capacity 0.
\<close>

theorem vector_move_spec:
  "vector_move v = (v, vector_default) \<and>
   first (fst (vector_move v)) = first v \<and>
   size_vec (fst (vector_move v)) = size_vec v \<and>
   capacity (fst (vector_move v)) = capacity v \<and>
   elems h (fst (vector_move v)) = elems h v \<and>
   first (snd (vector_move v)) = Null \<and>
   size_vec (snd (vector_move v)) = Inr 0 \<and>
   capacity (snd (vector_move v)) = Inr 0"
  by (cases v) (simp add: vector_move_def vector_default_def size_vec_def capacity_def elems_def)

theorem vector_move_spec_witness:
  "vector_move \<lparr>first = Ptr 0 0, last_ptr = Ptr 0 3, end_ptr = Ptr 0 4\<rparr> =
     (\<lparr>first = Ptr 0 0, last_ptr = Ptr 0 3, end_ptr = Ptr 0 4\<rparr>,
      \<lparr>first = Null, last_ptr = Null, end_ptr = Null\<rparr>)"
  using vector_move_spec [where v = "\<lparr>first = Ptr 0 0, last_ptr = Ptr 0 3, end_ptr = Ptr 0 4\<rparr>"
      and h = "[] :: nat heap"]
  by (simp add: vector_default_def)

subsection \<open>\<open>resize\<close> to the current length\<close>

text \<open>
  C10. \<open>resize(n, x)\<close> with \<open>n\<close> the current length returns with the store and the
  container as they were: neither loop is entered and \<open>reserve\<close> is not called.
\<close>

theorem resize_same_size:
  assumes "size_vec v = Inr n"
  shows "resize triv dflt h v n x = Inr (h, v)"
  using assms by (simp add: resize_def and_then_def)

theorem resize_same_size_witness:
  "size_vec \<lparr>first = Ptr 0 0, last_ptr = Ptr 0 3, end_ptr = Ptr 0 4\<rparr> = Inr 3 \<and>
   resize False 0 [Some [Live 10, Live 20, Live 30, Live (0 :: nat)]]
     \<lparr>first = Ptr 0 0, last_ptr = Ptr 0 3, end_ptr = Ptr 0 4\<rparr> 3 (Object 7) =
     Inr ([Some [Live 10, Live 20, Live 30, Live 0]],
          \<lparr>first = Ptr 0 0, last_ptr = Ptr 0 3, end_ptr = Ptr 0 4\<rparr>)"
proof -
  have s: "size_vec \<lparr>first = Ptr 0 0, last_ptr = Ptr 0 3, end_ptr = Ptr 0 4\<rparr> = Inr 3"
    by (simp add: size_vec_def)
  from resize_same_size [OF s, of False 0 "[Some [Live 10, Live 20, Live 30, Live (0 :: nat)]]"
      "Object 7"] s
  show ?thesis by simp
qed

subsection \<open>Comparison\<close>

lemma wf_load:
  assumes "well_formed h v" "k < length (elems h v)"
  shows "load h (first v) k = Inr (elems h v ! k)"
  using assms(1)
proof (cases rule: wf_cases)
  case null
  with assms(2) show ?thesis by (simp add: null_view)
next
  case (buf b ys zs)
  with assms(2) have "k < length ys" by (simp add: buf_view)
  with buf show ?thesis by (simp add: buf_view nth_append)
qed

lemma eq_loop_elems:
  assumes "well_formed h a" "well_formed h b"
    "length (elems h a) = n" "length (elems h b) = n" "i \<le> n"
  shows "eq_loop eq h a b i n = Inr (list_all2 eq (drop i (elems h a)) (drop i (elems h b)))"
  using assms(5)
proof (induction "n - i" arbitrary: i)
  case 0
  with assms(3,4) show ?case by (subst eq_loop.simps) simp
next
  case (Suc m)
  then have i: "i < n" by simp
  from i assms have la: "load h (first a) i = Inr (elems h a ! i)"
    and lb: "load h (first b) i = Inr (elems h b ! i)"
    by (simp_all add: wf_load)
  have da: "drop i (elems h a) = elems h a ! i # drop (Suc i) (elems h a)"
    and db: "drop i (elems h b) = elems h b ! i # drop (Suc i) (elems h b)"
    using i assms(3,4) by (simp_all add: Cons_nth_drop_Suc)
  from Suc have "eq_loop eq h a b (i + 1) n =
      Inr (list_all2 eq (drop (i + 1) (elems h a)) (drop (i + 1) (elems h b)))"
    by (intro Suc.hyps) simp_all
  with i la lb da db show ?case
    by (subst eq_loop.simps) simp
qed

lemma vec_eq_elems:
  assumes "well_formed h a" "well_formed h b"
  shows "vec_eq eq h a b = Inr (list_all2 eq (elems h a) (elems h b))"
proof (cases "length (elems h a) = length (elems h b)")
  case True
  with eq_loop_elems [OF assms refl, of 0 eq] assms show ?thesis
    by (simp add: vec_eq_def and_then_def wf_size_elems)
next
  case False
  with assms show ?thesis
    by (auto simp: vec_eq_def and_then_def wf_size_elems dest: list_all2_lengthD)
qed

lemma lexicographical_compare_blocks:
  assumes "block h a = Some (map Live xs @ zs)" "block h b = Some (map Live ys @ ws)"
    "i \<le> n" "n \<le> length xs" "j \<le> m" "m \<le> length ys"
  shows "lexicographical_compare lt h (Ptr a i) (Ptr a n) (Ptr b j) (Ptr b m) =
     Inr (ord.lexordp lt (take (n - i) (drop i xs)) (take (m - j) (drop j ys)))"
  using assms(3,5)
proof (induction "n - i" arbitrary: i j)
  case 0
  then have "i = n" by simp
  then show ?case
    using 0 assms(6) by (subst lexicographical_compare.simps) auto
next
  case (Suc k)
  then have i: "i < n" by simp
  show ?case
  proof (cases "j < m")
    case False
    with Suc have "j = m" by simp
    then show ?thesis
      using i assms by (subst lexicographical_compare.simps) (auto simp: take_eq_Nil)
  next
    case True
    have dx: "take (n - i) (drop i xs) = xs ! i # take (n - Suc i) (drop (Suc i) xs)"
    proof -
      have "drop i xs = xs ! i # drop (Suc i) xs"
        using i assms(4) by (simp add: Cons_nth_drop_Suc)
      moreover have "n - i = Suc (n - Suc i)" using i by simp
      ultimately show ?thesis by (simp only: take_Suc_Cons)
    qed
    have dy: "take (m - j) (drop j ys) = ys ! j # take (m - Suc j) (drop (Suc j) ys)"
    proof -
      have "drop j ys = ys ! j # drop (Suc j) ys"
        using True assms(6) by (simp add: Cons_nth_drop_Suc)
      moreover have "m - j = Suc (m - Suc j)" using True by simp
      ultimately show ?thesis by (simp only: take_Suc_Cons)
    qed
    have ih: "lexicographical_compare lt h (Ptr a (Suc i)) (Ptr a n) (Ptr b (Suc j)) (Ptr b m) =
        Inr (ord.lexordp lt (take (n - Suc i) (drop (Suc i) xs)) (take (m - Suc j) (drop (Suc j) ys)))"
      using Suc i True by (intro Suc.hyps) simp_all
    have ld: "load h (Ptr a i) 0 = Inr (xs ! i)" "load h (Ptr b j) 0 = Inr (ys ! j)"
      using assms i True by (simp_all add: nth_append)
    show ?thesis
      using i True ld ih
      by (subst lexicographical_compare.simps) (simp add: dx dy)
  qed
qed

lemma vec_lt_elems:
  assumes "well_formed h a" "well_formed h b"
  shows "vec_lt lt h a b = Inr (ord.lexordp lt (elems h a) (elems h b))"
  using assms(1)
proof (cases rule: wf_cases)
  case null
  from assms(2) have "(first b \<noteq> last_ptr b) = (elems h b \<noteq> [])"
    by (cases rule: wf_cases) (auto simp: null_view buf_view)
  with null show ?thesis
    by (subst vec_lt_def, subst lexicographical_compare.simps) (simp add: null_view)
next
  case a: (buf ba xs zs)
  from assms(2) show ?thesis
  proof (cases rule: wf_cases)
    case null
    with a show ?thesis
      by (subst vec_lt_def, subst lexicographical_compare.simps) (simp add: null_view)
  next
    case (buf bb ys ws)
    with a lexicographical_compare_blocks [of h ba xs zs bb ys ws 0 "length xs" 0 "length ys" lt]
    show ?thesis
      by (simp add: vec_lt_def buf_view)
  qed
qed

lemma lex_less_Nil: "lex_less lt [] ys \<longleftrightarrow> ys \<noteq> []"
  by (simp add: lex_less_def)

lemma lex_less_Nil2: "\<not> lex_less lt xs []"
  by (simp add: lex_less_def)

lemma lex_less_Cons:
  "lex_less lt (x # xs) (y # ys) \<longleftrightarrow> lt x y \<or> (\<not> lt y x \<and> lex_less lt xs ys)"
  by (auto simp: lex_less_def Ex_less_Suc2 All_less_Suc2)

lemma lexordp_lex_less: "ord.lexordp lt xs ys = lex_less lt xs ys"
proof (induction xs arbitrary: ys)
  case Nil
  show ?case by (simp add: lex_less_Nil)
next
  case (Cons x xs)
  show ?case
    by (cases ys) (simp_all add: lex_less_Nil2 lex_less_Cons Cons.IH)
qed

text \<open>
  C8. For well-formed containers, \<open>a < b\<close> returns whether the elements of \<open>a\<close> are
  lexicographically less than those of \<open>b\<close> under the element ordering \<open>lt\<close>: in the
  specification's words (\<open>lex_less\<close>) and, the same, in the library's (\<open>lexordp\<close>). In
  particular it is true when the elements of \<open>a\<close> are a proper prefix of those of \<open>b\<close>.
  And \<open>a == b\<close> returns whether the lengths are equal and the elements are equal, under
  the element type's \<open>operator==\<close>, at every index.
\<close>

theorem comparison_spec:
  assumes "well_formed h a" "well_formed h b"
  shows "vec_lt lt h a b = Inr (lex_less lt (elems h a) (elems h b)) \<and>
     vec_lt lt h a b = Inr (ord.lexordp lt (elems h a) (elems h b)) \<and>
     ((\<exists>zs. zs \<noteq> [] \<and> elems h b = elems h a @ zs) \<longrightarrow> vec_lt lt h a b = Inr True) \<and>
     vec_eq eq h a b = Inr (length (elems h a) = length (elems h b) \<and>
        (\<forall>i < length (elems h a). eq (elems h a ! i) (elems h b ! i)))"
proof (intro conjI impI)
  show lt: "vec_lt lt h a b = Inr (ord.lexordp lt (elems h a) (elems h b))"
    using assms by (rule vec_lt_elems)
  then show "vec_lt lt h a b = Inr (lex_less lt (elems h a) (elems h b))"
    by (simp add: lexordp_lex_less)
  show "vec_lt lt h a b = Inr True" if "\<exists>zs. zs \<noteq> [] \<and> elems h b = elems h a @ zs"
    using that lt by (auto simp: ord.lexordp_append_rightI)
  show "vec_eq eq h a b = Inr (length (elems h a) = length (elems h b) \<and>
        (\<forall>i < length (elems h a). eq (elems h a ! i) (elems h b ! i)))"
    using vec_eq_elems [OF assms, of eq] by (simp add: list_all2_conv_all_nth)
qed

theorem comparison_spec_witness:
  "well_formed [Some [Live 1, Live (2 :: nat)], Some [Live 1, Live 2, Live 3]]
     \<lparr>first = Ptr 0 0, last_ptr = Ptr 0 2, end_ptr = Ptr 0 2\<rparr> \<and>
   well_formed [Some [Live 1, Live (2 :: nat)], Some [Live 1, Live 2, Live 3]]
     \<lparr>first = Ptr 1 0, last_ptr = Ptr 1 3, end_ptr = Ptr 1 3\<rparr> \<and>
   vec_lt (<) [Some [Live 1, Live (2 :: nat)], Some [Live 1, Live 2, Live 3]]
     \<lparr>first = Ptr 0 0, last_ptr = Ptr 0 2, end_ptr = Ptr 0 2\<rparr>
     \<lparr>first = Ptr 1 0, last_ptr = Ptr 1 3, end_ptr = Ptr 1 3\<rparr> = Inr True \<and>
   vec_eq (=) [Some [Live 1, Live (2 :: nat)], Some [Live 1, Live 2, Live 3]]
     \<lparr>first = Ptr 0 0, last_ptr = Ptr 0 2, end_ptr = Ptr 0 2\<rparr>
     \<lparr>first = Ptr 1 0, last_ptr = Ptr 1 3, end_ptr = Ptr 1 3\<rparr> = Inr False"
proof -
  let ?h = "[Some [Live 1, Live (2 :: nat)], Some [Live 1, Live 2, Live 3]]"
  let ?a = "\<lparr>first = Ptr 0 0, last_ptr = Ptr 0 2, end_ptr = Ptr 0 2\<rparr>"
  let ?b = "\<lparr>first = Ptr 1 0, last_ptr = Ptr 1 3, end_ptr = Ptr 1 3\<rparr>"
  have wa: "well_formed ?h ?a" and wb: "well_formed ?h ?b"
    by (simp_all add: well_formed_def block_def)
  have ev: "vec_lt (<) ?h ?a ?b = Inr True" "vec_eq (=) ?h ?a ?b = Inr False"
    by code_simp+
  from comparison_spec [OF wa wb, where lt = "(<)" and eq = "(=)"] wa wb ev show ?thesis
    by simp
qed

text \<open>
  C9. For well-formed containers all six comparisons return, and the derived ones agree
  with \<open>==\<close> and \<open><\<close>: \<open>a != b\<close> is the negation of \<open>a == b\<close>, \<open>a <= b\<close> the negation of
  \<open>b < a\<close>, \<open>a > b\<close> is \<open>b < a\<close>, and \<open>a >= b\<close> the negation of \<open>a < b\<close>, whatever the
  element type's \<open>operator==\<close> and \<open>operator<\<close> are.
\<close>

theorem derived_comparisons:
  assumes "well_formed h a" "well_formed h b"
  shows "\<exists>e l g. vec_eq eq h a b = Inr e \<and> vec_lt lt h a b = Inr l \<and>
     vec_lt lt h b a = Inr g \<and>
     vec_ne eq h a b = Inr (\<not> e) \<and> vec_le lt h a b = Inr (\<not> g) \<and>
     vec_gt lt h a b = Inr g \<and> vec_ge lt h a b = Inr (\<not> l)"
  using vec_eq_elems [OF assms, of eq] vec_lt_elems [OF assms, of lt]
    vec_lt_elems [OF assms(2,1), of lt]
  by (simp add: vec_ne_def vec_le_def vec_gt_def vec_ge_def and_then_def)

theorem derived_comparisons_witness:
  "well_formed [Some [Live 1, Live (2 :: nat)], Some [Live 1, Live 2, Live 3]]
     \<lparr>first = Ptr 0 0, last_ptr = Ptr 0 2, end_ptr = Ptr 0 2\<rparr> \<and>
   well_formed [Some [Live 1, Live (2 :: nat)], Some [Live 1, Live 2, Live 3]]
     \<lparr>first = Ptr 1 0, last_ptr = Ptr 1 3, end_ptr = Ptr 1 3\<rparr> \<and>
   vec_ne (=) [Some [Live 1, Live (2 :: nat)], Some [Live 1, Live 2, Live 3]]
     \<lparr>first = Ptr 0 0, last_ptr = Ptr 0 2, end_ptr = Ptr 0 2\<rparr>
     \<lparr>first = Ptr 1 0, last_ptr = Ptr 1 3, end_ptr = Ptr 1 3\<rparr> = Inr True \<and>
   vec_le (<) [Some [Live 1, Live (2 :: nat)], Some [Live 1, Live 2, Live 3]]
     \<lparr>first = Ptr 0 0, last_ptr = Ptr 0 2, end_ptr = Ptr 0 2\<rparr>
     \<lparr>first = Ptr 1 0, last_ptr = Ptr 1 3, end_ptr = Ptr 1 3\<rparr> = Inr True \<and>
   vec_gt (<) [Some [Live 1, Live (2 :: nat)], Some [Live 1, Live 2, Live 3]]
     \<lparr>first = Ptr 0 0, last_ptr = Ptr 0 2, end_ptr = Ptr 0 2\<rparr>
     \<lparr>first = Ptr 1 0, last_ptr = Ptr 1 3, end_ptr = Ptr 1 3\<rparr> = Inr False \<and>
   vec_ge (<) [Some [Live 1, Live (2 :: nat)], Some [Live 1, Live 2, Live 3]]
     \<lparr>first = Ptr 0 0, last_ptr = Ptr 0 2, end_ptr = Ptr 0 2\<rparr>
     \<lparr>first = Ptr 1 0, last_ptr = Ptr 1 3, end_ptr = Ptr 1 3\<rparr> = Inr False"
proof -
  let ?h = "[Some [Live 1, Live (2 :: nat)], Some [Live 1, Live 2, Live 3]]"
  let ?a = "\<lparr>first = Ptr 0 0, last_ptr = Ptr 0 2, end_ptr = Ptr 0 2\<rparr>"
  let ?b = "\<lparr>first = Ptr 1 0, last_ptr = Ptr 1 3, end_ptr = Ptr 1 3\<rparr>"
  have wa: "well_formed ?h ?a" and wb: "well_formed ?h ?b"
    by (simp_all add: well_formed_def block_def)
  have ev: "vec_ne (=) ?h ?a ?b = Inr True" "vec_le (<) ?h ?a ?b = Inr True"
    "vec_gt (<) ?h ?a ?b = Inr False" "vec_ge (<) ?h ?a ?b = Inr False"
    by code_simp+
  from derived_comparisons [OF wa wb, where lt = "(<)" and eq = "(=)"] wa wb ev show ?thesis
    by simp
qed

subsection \<open>Copy construction\<close>

lemma vector_copy_null:
  assumes "first v = Null" "last_ptr v = Null" "end_ptr v = Null"
  shows "vector_copy dflt h v =
    Inr (h @ [Some []],
         \<lparr>first = Ptr (length h) 0, last_ptr = Ptr (length h) 0, end_ptr = Ptr (length h) 0\<rparr>)"
proof -
  have "copy_loop (h @ [Some []]) (Ptr (length h) 0) Null 0 0 = Inr (h @ [Some []])"
    by (subst copy_loop.simps) simp
  then show ?thesis
    using assms
    by (simp add: vector_copy_def new_array_def size_vec_def capacity_def and_then_def)
qed

lemma vector_copy_buf:
  assumes "first v = Ptr b 0" "last_ptr v = Ptr b (length ys)"
    "end_ptr v = Ptr b (length ys + length zs)" "block h b = Some (map Live ys @ zs)"
  shows "vector_copy dflt h v =
    Inr (h @ [Some (map Live ys @ replicate (length zs) (Live dflt))],
         \<lparr>first = Ptr (length h) 0, last_ptr = Ptr (length h) (length ys),
          end_ptr = Ptr (length h) (length ys + length zs)\<rparr>)"
proof -
  let ?n = "length ys"
  let ?c = "length ys + length zs"
  let ?ds = "replicate ?c (Live dflt)"
  let ?h1 = "h @ [Some ?ds]"
  have b: "b < length h" using assms(4) by (rule block_Some_less)
  have "copy_loop ?h1 (Ptr (length h) 0) (Ptr b 0) 0 ?n =
      Inr (?h1[length h := Some (take 0 ?ds @ take (?n - 0) (drop 0 (map Live ys @ zs))
            @ drop ?n ?ds)])"
    using assms b by (intro copy_loop_block) (simp_all add: block_append nth_append)
  then have "copy_loop ?h1 (Ptr (length h) 0) (Ptr b 0) 0 ?n =
      Inr (h @ [Some (map Live ys @ replicate (length zs) (Live dflt))])"
    by simp
  then show ?thesis
    using assms
    by (simp add: vector_copy_def new_array_def size_vec_def capacity_def and_then_def)
qed

lemma vector_copy_wf:
  assumes "well_formed h v"
  shows "\<exists>h' c. vector_copy dflt h v = Inr (h', c) \<and> well_formed h' c \<and> all_live h' c \<and>
     first c = Ptr (length h) 0 \<and> first c \<noteq> first v \<and>
     capacity c = capacity v \<and> size_vec c = size_vec v \<and> elems h' c = elems h v \<and>
     well_formed h' v \<and> elems h' v = elems h v \<and> all_live h' v = all_live h v"
  using assms
proof (cases rule: wf_cases)
  case null
  then show ?thesis
    by (simp add: vector_copy_null well_formed_def all_live_def block_append elems_def
        size_vec_def capacity_def)
next
  case (buf b ys zs)
  from buf have "b < length h" by (simp add: block_Some_less)
  moreover from this have "length h \<noteq> b" by simp
  ultimately show ?thesis
    using buf
    by (simp add: vector_copy_buf well_formed_def all_live_def block_append elems_def
        size_vec_def capacity_def)
qed

text \<open>
  C2, as the code has it. Copy construction from a well-formed container \<open>v\<close> returns a
  container on a fresh array with as many slots as \<open>v\<close> has capacity (so the copy's
  capacity is \<open>v\<close>'s, not \<open>v\<close>'s length), whose length is \<open>v\<close>'s and whose elements
  are \<open>v\<close>'s, in order; \<open>v\<close> is as before. The comparison \<open>copy == v\<close> returns whether
  every element of \<open>v\<close> is equal to itself under the element type's \<open>operator==\<close>: it
  is true when that operator is reflexive, and false otherwise, as for a container of
  \<open>double\<close> that holds a NaN.
\<close>

theorem vector_copy_spec:
  assumes "well_formed h v"
  shows "\<exists>h' c. vector_copy dflt h v = Inr (h', c) \<and> well_formed h' c \<and>
     first c \<noteq> first v \<and>
     capacity c = capacity v \<and> size_vec c = size_vec v \<and> elems h' c = elems h v \<and>
     well_formed h' v \<and> elems h' v = elems h v \<and>
     vec_eq eq h' c v = Inr (list_all (\<lambda>x. eq x x) (elems h v)) \<and>
     ((\<forall>x. eq x x) \<longrightarrow> vec_eq eq h' c v = Inr True)"
proof -
  from vector_copy_wf [OF assms, of dflt] obtain h' c where
    r: "vector_copy dflt h v = Inr (h', c)" "well_formed h' c" "first c \<noteq> first v"
      "capacity c = capacity v" "size_vec c = size_vec v" "elems h' c = elems h v"
      "well_formed h' v" "elems h' v = elems h v"
    by blast
  from vec_eq_elems [OF r(2,7), of eq] r(6,8)
  have e: "vec_eq eq h' c v = Inr (list_all (\<lambda>x. eq x x) (elems h v))"
    by (simp add: list_all2_same list_all_iff)
  moreover have "(\<forall>x. eq x x) \<longrightarrow> vec_eq eq h' c v = Inr True"
    using e by (simp add: list_all_iff)
  ultimately show ?thesis using r by blast
qed

theorem vector_copy_spec_witness:
  "well_formed [Some [Live 10, Live 20, Live 30, Live (0 :: nat)]]
     \<lparr>first = Ptr 0 0, last_ptr = Ptr 0 3, end_ptr = Ptr 0 4\<rparr> \<and>
   vector_copy 5 [Some [Live 10, Live 20, Live 30, Live (0 :: nat)]]
     \<lparr>first = Ptr 0 0, last_ptr = Ptr 0 3, end_ptr = Ptr 0 4\<rparr> =
     Inr ([Some [Live 10, Live 20, Live 30, Live 0], Some [Live 10, Live 20, Live 30, Live 5]],
          \<lparr>first = Ptr 1 0, last_ptr = Ptr 1 3, end_ptr = Ptr 1 4\<rparr>) \<and>
   capacity \<lparr>first = Ptr 1 0, last_ptr = Ptr 1 3, end_ptr = Ptr 1 4\<rparr> = Inr 4 \<and>
   vec_eq (=)
     [Some [Live 10, Live 20, Live 30, Live (0 :: nat)], Some [Live 10, Live 20, Live 30, Live 5]]
     \<lparr>first = Ptr 1 0, last_ptr = Ptr 1 3, end_ptr = Ptr 1 4\<rparr>
     \<lparr>first = Ptr 0 0, last_ptr = Ptr 0 3, end_ptr = Ptr 0 4\<rparr> = Inr True"
proof -
  let ?h = "[Some [Live 10, Live 20, Live 30, Live (0 :: nat)]]"
  let ?v = "\<lparr>first = Ptr 0 0, last_ptr = Ptr 0 3, end_ptr = Ptr 0 4\<rparr>"
  have w: "well_formed ?h ?v"
    by (simp add: well_formed_def block_def)
  have ev: "vector_copy 5 ?h ?v =
     Inr ([Some [Live 10, Live 20, Live 30, Live 0], Some [Live 10, Live 20, Live 30, Live 5]],
          \<lparr>first = Ptr 1 0, last_ptr = Ptr 1 3, end_ptr = Ptr 1 4\<rparr>)"
    "capacity \<lparr>first = Ptr 1 0, last_ptr = Ptr 1 3, end_ptr = Ptr 1 4\<rparr> = Inr 4"
    "vec_eq (=)
       [Some [Live 10, Live 20, Live 30, Live (0 :: nat)],
        Some [Live 10, Live 20, Live 30, Live 5]]
       \<lparr>first = Ptr 1 0, last_ptr = Ptr 1 3, end_ptr = Ptr 1 4\<rparr> ?v = Inr True"
    by code_simp+
  from vector_copy_spec [OF w, where dflt = 5 and eq = "(=)"] w ev show ?thesis
    by simp
qed

text \<open>
  The copy of a container that holds a NaN does not compare equal to it: with \<open>nan_eq\<close>
  for the element type's \<open>operator==\<close> and \<open>None\<close> for the NaN, the copy of a container
  with the elements \<open>Some 1, None\<close> has the same capacity, length and elements, and
  \<open>copy == v\<close> returns false.
\<close>

theorem vector_copy_not_equal:
  "well_formed [Some [Live (Some (1 :: nat)), Live None]]
     \<lparr>first = Ptr 0 0, last_ptr = Ptr 0 2, end_ptr = Ptr 0 2\<rparr> \<and>
   vector_copy (Some 0) [Some [Live (Some (1 :: nat)), Live None]]
     \<lparr>first = Ptr 0 0, last_ptr = Ptr 0 2, end_ptr = Ptr 0 2\<rparr> =
     Inr ([Some [Live (Some 1), Live None], Some [Live (Some 1), Live None]],
          \<lparr>first = Ptr 1 0, last_ptr = Ptr 1 2, end_ptr = Ptr 1 2\<rparr>) \<and>
   elems [Some [Live (Some (1 :: nat)), Live None], Some [Live (Some 1), Live None]]
     \<lparr>first = Ptr 1 0, last_ptr = Ptr 1 2, end_ptr = Ptr 1 2\<rparr> = [Some 1, None] \<and>
   elems [Some [Live (Some (1 :: nat)), Live None], Some [Live (Some 1), Live None]]
     \<lparr>first = Ptr 0 0, last_ptr = Ptr 0 2, end_ptr = Ptr 0 2\<rparr> = [Some 1, None] \<and>
   vec_eq nan_eq
     [Some [Live (Some (1 :: nat)), Live None], Some [Live (Some 1), Live None]]
     \<lparr>first = Ptr 1 0, last_ptr = Ptr 1 2, end_ptr = Ptr 1 2\<rparr>
     \<lparr>first = Ptr 0 0, last_ptr = Ptr 0 2, end_ptr = Ptr 0 2\<rparr> = Inr False"
proof -
  have "well_formed [Some [Live (Some (1 :: nat)), Live None]]
     \<lparr>first = Ptr 0 0, last_ptr = Ptr 0 2, end_ptr = Ptr 0 2\<rparr>"
    by (simp add: well_formed_def block_def)
  moreover have "vector_copy (Some 0) [Some [Live (Some (1 :: nat)), Live None]]
     \<lparr>first = Ptr 0 0, last_ptr = Ptr 0 2, end_ptr = Ptr 0 2\<rparr> =
     Inr ([Some [Live (Some 1), Live None], Some [Live (Some 1), Live None]],
          \<lparr>first = Ptr 1 0, last_ptr = Ptr 1 2, end_ptr = Ptr 1 2\<rparr>)"
    by code_simp
  moreover have
    "elems [Some [Live (Some (1 :: nat)), Live None], Some [Live (Some 1), Live None]]
       \<lparr>first = Ptr 1 0, last_ptr = Ptr 1 2, end_ptr = Ptr 1 2\<rparr> = [Some 1, None]"
    "elems [Some [Live (Some (1 :: nat)), Live None], Some [Live (Some 1), Live None]]
       \<lparr>first = Ptr 0 0, last_ptr = Ptr 0 2, end_ptr = Ptr 0 2\<rparr> = [Some 1, None]"
    by code_simp+
  moreover have "vec_eq nan_eq
     [Some [Live (Some (1 :: nat)), Live None], Some [Live (Some 1), Live None]]
     \<lparr>first = Ptr 1 0, last_ptr = Ptr 1 2, end_ptr = Ptr 1 2\<rparr>
     \<lparr>first = Ptr 0 0, last_ptr = Ptr 0 2, end_ptr = Ptr 0 2\<rparr> = Inr False"
    by code_simp
  ultimately show ?thesis by simp
qed

subsection \<open>Every operation keeps the container well formed\<close>

lemma vector_fill_result:
  "vector_fill dflt h count x =
     Inr (h @ [Some (replicate count (Live x))],
          \<lparr>first = Ptr (length h) 0, last_ptr = Ptr (length h) count,
           end_ptr = Ptr (length h) count\<rparr>)"
proof -
  let ?ds = "replicate count (Live dflt)"
  let ?h1 = "h @ [Some ?ds]"
  have "fill_loop ?h1 (Ptr (length h) 0) x 0 count =
      Inr (?h1[length h := Some (take 0 ?ds @ replicate (count - 0) (Live x) @ drop count ?ds)])"
    by (intro fill_loop_block) (simp_all add: block_append)
  then have "fill_loop ?h1 (Ptr (length h) 0) x 0 count =
      Inr (h @ [Some (replicate count (Live x))])"
    by simp
  then show ?thesis
    by (simp add: vector_fill_def new_array_def and_then_def)
qed

lemma vector_init_result:
  "vector_init dflt h init =
     Inr (h @ [Some (map Live init)],
          \<lparr>first = Ptr (length h) 0, last_ptr = Ptr (length h) (length init),
           end_ptr = Ptr (length h) (length init)\<rparr>)"
proof -
  let ?ds = "replicate (length init) (Live dflt)"
  let ?h1 = "h @ [Some ?ds]"
  have "init_loop ?h1 (Ptr (length h) 0) 0 init =
      Inr (?h1[length h := Some (take 0 ?ds @ map Live init @ drop (0 + length init) ?ds)])"
    by (intro init_loop_block) (simp_all add: block_append)
  then have "init_loop ?h1 (Ptr (length h) 0) 0 init = Inr (h @ [Some (map Live init)])"
    by simp
  then show ?thesis
    by (simp add: vector_init_def vector_fill_result and_then_def)
qed

lemma reserve_wf:
  assumes "well_formed h v" "reserve dflt h v n = Inr (h', v')"
  shows "well_formed h' v' \<and> (all_live h v \<longrightarrow> all_live h' v')"
proof -
  from wf_capacity [OF assms(1)] obtain c where c: "capacity v = Inr c" "length (elems h v) \<le> c"
    by blast
  show ?thesis
  proof (cases "n > c")
    case True
    with c have l: "length (elems h v) \<le> n" by simp
    from assms(2) c True have "reallocate dflt h v n = Inr (h', v')"
      by (simp add: reserve_def and_then_def)
    from reallocate_returns [OF assms(1) l this] show ?thesis by simp
  next
    case False
    with assms c show ?thesis by (simp add: reserve_def and_then_def)
  qed
qed

lemma shrink_to_fit_wf:
  assumes "well_formed h v" "shrink_to_fit dflt h v = Inr (h', v')"
  shows "well_formed h' v' \<and> (all_live h v \<longrightarrow> all_live h' v')"
proof -
  from wf_capacity [OF assms(1)] obtain c where c: "capacity v = Inr c" by blast
  have s: "size_vec v = Inr (length (elems h v))" using assms(1) by (rule wf_size_elems)
  show ?thesis
  proof (cases "c > length (elems h v)")
    case True
    with assms(2) c s have "reallocate dflt h v (length (elems h v)) = Inr (h', v')"
      by (simp add: shrink_to_fit_def and_then_def)
    from reallocate_returns [OF assms(1) order_refl this] show ?thesis by simp
  next
    case False
    with assms c s show ?thesis by (simp add: shrink_to_fit_def and_then_def)
  qed
qed

lemma clear_step:
  assumes "well_formed h v" "last_ptr v \<noteq> first v" "ptr_dec (last_ptr v) = Inr l"
    "destroy_at triv h l = Inr h1"
  shows "pop_back triv h v = Inr (h1, v\<lparr>last_ptr := l\<rparr>)"
  using assms(1)
proof (cases rule: wf_cases)
  case null
  with assms(2) show ?thesis by simp
next
  case (buf b ys zs)
  with assms(2) have "length ys \<noteq> 0" by auto
  with buf assms(3,4) show ?thesis
    by (simp add: pop_back_def empty_vec_def size_vec_def and_then_def)
qed

lemma clear_wf:
  "well_formed h v \<Longrightarrow> clear triv h v = Inr (h', v') \<Longrightarrow>
   well_formed h' v' \<and> (triv \<and> all_live h v \<longrightarrow> all_live h' v')"
proof (induction triv h v rule: clear.induct)
  case (1 triv h v)
  show ?case
  proof (cases "last_ptr v \<noteq> first v")
    case False
    with "1.prems" show ?thesis by (subst (asm) clear.simps) simp
  next
    case True
    with "1.prems"(2) obtain l h1 where l: "ptr_dec (last_ptr v) = Inr l"
      "destroy_at triv h l = Inr h1" "clear triv h1 (v\<lparr>last_ptr := l\<rparr>) = Inr (h', v')"
      by (subst (asm) clear.simps) (auto split: sum.splits)
    from clear_step [OF "1.prems"(1) True l(1,2)]
    have p: "pop_back triv h v = Inr (h1, v\<lparr>last_ptr := l\<rparr>)" .
    from pop_back_wf [OF "1.prems"(1) p]
    have w: "well_formed h1 (v\<lparr>last_ptr := l\<rparr>)"
      "triv \<and> all_live h v \<longrightarrow> all_live h1 (v\<lparr>last_ptr := l\<rparr>)"
      by simp_all
    from "1.IH" [OF True l(1,2) w(1) l(3)] w(2) show ?thesis by simp
  qed
qed

lemma resize_pop_loop_wf:
  "well_formed h v \<Longrightarrow> resize_pop_loop triv h v n = Inr (h', v') \<Longrightarrow>
   well_formed h' v' \<and> (triv \<and> all_live h v \<longrightarrow> all_live h' v')"
proof (induction triv h v n rule: resize_pop_loop.induct)
  case (1 triv h v new_size)
  from "1.prems"(1) have s: "size_vec v = Inr (length (elems h v))" by (rule wf_size_elems)
  show ?case
  proof (cases "length (elems h v) > new_size")
    case False
    with "1.prems" s show ?thesis by (subst (asm) resize_pop_loop.simps) simp
  next
    case True
    with "1.prems"(2) s obtain h1 v1 where v1: "pop_back triv h v = Inr (h1, v1)"
      "resize_pop_loop triv h1 v1 new_size = Inr (h', v')"
      by (subst (asm) resize_pop_loop.simps) (auto split: sum.splits)
    from pop_back_wf [OF "1.prems"(1) v1(1)]
    have w: "well_formed h1 v1" "triv \<and> all_live h v \<longrightarrow> all_live h1 v1"
      by simp_all
    from "1.IH" [OF s True v1(1) refl w(1) v1(2)] w(2) show ?thesis by simp
  qed
qed

lemma resize_push_loop_wf:
  "well_formed h v \<Longrightarrow> resize_push_loop dflt h v n x = Inr (h', v') \<Longrightarrow>
   well_formed h' v' \<and> (all_live h v \<longrightarrow> all_live h' v')"
proof (induction dflt h v n x rule: resize_push_loop.induct)
  case (1 dflt h v new_size x)
  from "1.prems"(1) have s: "size_vec v = Inr (length (elems h v))" by (rule wf_size_elems)
  show ?case
  proof (cases "length (elems h v) < new_size")
    case False
    with "1.prems" s show ?thesis by (subst (asm) resize_push_loop.simps) simp
  next
    case True
    with "1.prems"(2) s obtain h1 v1 where v1: "push_back dflt h v x = Inr (h1, v1)"
      "resize_push_loop dflt h1 v1 new_size x = Inr (h', v')"
      by (subst (asm) resize_push_loop.simps) (auto split: sum.splits)
    from push_back_wf [OF "1.prems"(1) v1(1)]
    have w: "well_formed h1 v1" "all_live h v \<longrightarrow> all_live h1 v1"
      by simp_all
    from "1.IH" [OF s True v1(1) refl w(1) v1(2)] w(2) show ?thesis by simp
  qed
qed

lemma resize_wf:
  assumes "well_formed h v" "resize triv dflt h v n x = Inr (h', v')"
  shows "well_formed h' v' \<and> (triv \<and> all_live h v \<longrightarrow> all_live h' v')"
proof -
  have s: "size_vec v = Inr (length (elems h v))" using assms(1) by (rule wf_size_elems)
  consider "n < length (elems h v)" | "n > length (elems h v)" | "n = length (elems h v)"
    by linarith
  then show ?thesis
  proof cases
    case 1
    with assms(2) s have "resize_pop_loop triv h v n = Inr (h', v')"
      by (simp add: resize_def and_then_def)
    from resize_pop_loop_wf [OF assms(1) this] show ?thesis .
  next
    case 2
    with assms(2) s obtain h1 v1 where r: "reserve dflt h v n = Inr (h1, v1)"
      "resize_push_loop dflt h1 v1 n x = Inr (h', v')"
      by (auto simp: resize_def and_then_def split: sum.splits)
    from reserve_wf [OF assms(1) r(1)]
    have w: "well_formed h1 v1" "all_live h v \<longrightarrow> all_live h1 v1"
      by simp_all
    from resize_push_loop_wf [OF w(1) r(2)] w(2) show ?thesis by simp
  next
    case 3
    with assms s show ?thesis by (simp add: resize_def and_then_def)
  qed
qed

subsection \<open>Reachable states\<close>

lemma wf_fields:
  "first v' = first v \<Longrightarrow> last_ptr v' = last_ptr v \<Longrightarrow> end_ptr v' = end_ptr v \<Longrightarrow>
   well_formed h v' = well_formed h v"
  by (simp add: well_formed_def split: ptr.splits option.splits)

lemma all_live_fields: "first v' = first v \<Longrightarrow> all_live h v' = all_live h v"
  by (simp add: all_live_def)

lemma wf_block_cong:
  assumes "\<forall>b i. first v = Ptr b i \<longrightarrow> block h' b = block h b"
  shows "well_formed h' v = well_formed h v"
  using assms by (cases "first v") (simp_all add: well_formed_def)

lemma all_live_block_cong:
  assumes "\<forall>b i. first v = Ptr b i \<longrightarrow> block h' b = block h b"
  shows "all_live h' v = all_live h v"
  using assms by (cases "first v") (simp_all add: all_live_def)

lemma map_live_replicate:
  "map live zs = replicate n True \<Longrightarrow> length zs = n \<and> list_all live zs"
proof (induction zs arbitrary: n)
  case Nil
  then show ?case by simp
next
  case (Cons z zs)
  then show ?case by (cases n) auto
qed

lemma vector_range_wf:
  assumes "vector_range dflt h start end' = Inr (h', v)"
  shows "well_formed h' v \<and> all_live h' v"
proof -
  from assms obtain n h2 where n: "ptr_diff end' start = Inr n"
    and c: "copy_loop (h @ [Some (replicate n (Live dflt))]) (Ptr (length h) 0) start 0 n = Inr h2"
    and v: "h' = h2" "v = \<lparr>first = Ptr (length h) 0, last_ptr = Ptr (length h) n,
        end_ptr = Ptr (length h) n\<rparr>"
    by (auto simp: vector_range_def new_array_def and_then_def split: sum.splits)
  from copy_loop_shape [OF c] have
    "map_option (map live) (block h2 (length h)) =
     map_option (map live) (block (h @ [Some (replicate n (Live dflt))]) (length h))"
    by blast
  then obtain zs where zs: "block h2 (length h) = Some zs" "map live zs = replicate n True"
    by (auto simp: block_append)
  from map_live_replicate [OF zs(2)] have "length zs = n" "list_all live zs" by simp_all
  with zs(1) v show ?thesis by (simp add: well_formed_def all_live_def)
qed

lemma copy_assign_wf:
  assumes "well_formed h v" "well_formed h other"
    "copy_assign dflt h v other same_object = Inr (h', v')"
  shows "well_formed h' v' \<and> (all_live h v \<longrightarrow> all_live h' v')"
proof (cases same_object)
  case True
  with assms show ?thesis by (simp add: copy_assign_def)
next
  case False
  from vector_copy_wf [OF assms(2), of dflt] obtain h1 temp where
    t: "vector_copy dflt h other = Inr (h1, temp)" "well_formed h1 temp" "all_live h1 temp"
      "first temp = Ptr (length h) 0"
    by blast
  from assms(3) False t(1) obtain h2 where
    d: "delete_array h1 (first v) = Inr h2" "h' = h2"
      "first v' = first temp" "last_ptr v' = last_ptr temp" "end_ptr v' = end_ptr temp"
    by (auto simp: copy_assign_def and_then_def swap_vec_def destroy_def split: sum.splits)
  have "first v \<noteq> Ptr (length h) 0"
    using assms(1) by (cases rule: wf_cases) (auto dest: block_Some_less)
  with d(1) t(4) have c: "\<forall>b i. first temp = Ptr b i \<longrightarrow> block h2 b = block h1 b"
    by (cases "first v") (auto simp: block_update split: option.splits if_splits)
  from c have "well_formed h2 temp = well_formed h1 temp"
    by (rule wf_block_cong)
  moreover from c have "all_live h2 temp = all_live h1 temp"
    by (rule all_live_block_cong)
  moreover have "well_formed h2 v' = well_formed h2 temp"
    using d(3-5) by (rule wf_fields)
  moreover have "all_live h2 v' = all_live h2 temp"
    using d(3) by (rule all_live_fields)
  ultimately show ?thesis using t(2,3) d(2) by simp
qed

lemma move_assign_wf:
  assumes "well_formed h v" "well_formed h other" "first v = Null \<or> first v \<noteq> first other"
    "move_assign h v other False = Inr (h', v', other')"
  shows "well_formed h' v' \<and> well_formed h' other' \<and>
     (all_live h other \<longrightarrow> all_live h' v') \<and> all_live h' other'"
proof -
  from assms(4) obtain h1 where
    d: "delete_array h (first v) = Inr h1" "h' = h1"
      "first v' = first other" "last_ptr v' = last_ptr other" "end_ptr v' = end_ptr other"
      "first other' = Null" "last_ptr other' = Null" "end_ptr other' = Null"
    by (auto simp: move_assign_def and_then_def split: sum.splits)
  have "first other = Null \<or> (\<exists>b. first other = Ptr b 0)"
    using assms(2) by (cases rule: wf_cases) simp_all
  with d(1) assms(3) have c: "\<forall>b i. first other = Ptr b i \<longrightarrow> block h1 b = block h b"
    by (cases "first v") (auto simp: block_update split: option.splits if_splits)
  from c have "well_formed h1 other = well_formed h other"
    by (rule wf_block_cong)
  moreover from c have "all_live h1 other = all_live h other"
    by (rule all_live_block_cong)
  moreover have "well_formed h1 v' = well_formed h1 other"
    using d(3-5) by (rule wf_fields)
  moreover have "all_live h1 v' = all_live h1 other"
    using d(3) by (rule all_live_fields)
  moreover have "well_formed h1 other'" "all_live h1 other'"
    using d(6-8) by (simp_all add: well_formed_def all_live_def)
  ultimately show ?thesis using assms(2) d(2) by simp
qed

lemma assign_element_wf:
  assumes "well_formed h v" "size_vec v = Inr n" "i < n" "store h (first v) i x = Inr h'"
  shows "well_formed h' v \<and> (all_live h v \<longrightarrow> all_live h' v)"
  using assms(1)
proof (cases rule: wf_cases)
  case null
  with assms(4) show ?thesis by simp
next
  case (buf b ys zs)
  with assms(2,3) have i: "i < length ys" by (simp add: buf_view)
  from buf(4) have bl: "b < length h" by (rule block_Some_less)
  from assms(4) buf i have h': "h' = h[b := Some (map Live (ys[i := x]) @ zs)]"
    by (simp add: nth_append list_update_append map_update)
  with bl have blk: "block h' b = Some (map Live (ys[i := x]) @ zs)"
    by (simp add: block_update)
  from buf have p: "first v = Ptr b 0" "last_ptr v = Ptr b (length (ys[i := x]))"
    "end_ptr v = Ptr b (length (ys[i := x]) + length zs)"
    by simp_all
  from buf_view(4,5) [OF p blk] buf_view(4) [OF buf] show ?thesis by simp
qed

lemma reachable_inv:
  "reachable triv dflt h v \<Longrightarrow> well_formed h v \<and> (triv \<longrightarrow> all_live h v)"
proof (induction rule: reachable.induct)
  case (r_default h)
  show ?case by (simp add: well_formed_def all_live_def vector_default_def)
next
  case (r_fill h count x h' v)
  then show ?case by (auto simp: vector_fill_result well_formed_def all_live_def block_append)
next
  case (r_init h init h' v)
  then show ?case by (auto simp: vector_init_result well_formed_def all_live_def block_append)
next
  case (r_range h start end' h' v)
  from vector_range_wf [OF r_range.hyps] show ?case by simp
next
  case (r_copy h other h' v)
  with vector_copy_wf [of h other dflt] show ?case by auto
next
  case (r_copied h other h' v)
  with vector_copy_wf [of h other dflt] show ?case by auto
next
  case (r_move h other v other')
  then show ?case by (cases other) (auto simp: vector_move_def)
next
  case (r_moved_from h other v other')
  then show ?case by (auto simp: vector_move_def well_formed_def all_live_def)
next
  case (r_copy_assign h v other same_object h' v')
  from r_copy_assign.IH have w: "well_formed h v" "well_formed h other" by simp_all
  from copy_assign_wf [OF w r_copy_assign.hyps(3)] r_copy_assign.IH(1) show ?case by simp
next
  case (r_move_assign h v other h' v' other')
  from r_move_assign.IH have w: "well_formed h v" "well_formed h other" by simp_all
  from move_assign_wf [OF w r_move_assign.hyps(3,4)] r_move_assign.IH(2) show ?case by simp
next
  case (r_move_assigned h v other h' v' other')
  from r_move_assigned.IH have w: "well_formed h v" "well_formed h other" by simp_all
  from move_assign_wf [OF w r_move_assigned.hyps(3,4)] show ?case by simp
next
  case (r_assign_element h v n i x h')
  from r_assign_element.IH have w: "well_formed h v" by simp
  from assign_element_wf [OF w r_assign_element.hyps(2,3,4)] r_assign_element.IH
  show ?case by simp
next
  case (r_push_back h v "value" h' v')
  from r_push_back.IH have w: "well_formed h v" by simp
  from push_back_wf [OF w r_push_back.hyps(2)] r_push_back.IH show ?case by simp
next
  case (r_emplace_back h v arg h' v')
  from r_emplace_back.IH have w: "well_formed h v" by simp
  from emplace_back_wf [OF w r_emplace_back.hyps(2)] r_emplace_back.IH show ?case by simp
next
  case (r_pop_back h v h' v')
  from r_pop_back.IH have w: "well_formed h v" by simp
  from pop_back_wf [OF w r_pop_back.hyps(2)] r_pop_back.IH show ?case by simp
next
  case (r_clear h v h' v')
  from r_clear.IH have w: "well_formed h v" by simp
  from clear_wf [OF w r_clear.hyps(2)] r_clear.IH show ?case by simp
next
  case (r_resize h v new_size "value" h' v')
  from r_resize.IH have w: "well_formed h v" by simp
  from resize_wf [OF w r_resize.hyps(2)] r_resize.IH show ?case by simp
next
  case (r_reserve h v new_cap h' v')
  from r_reserve.IH have w: "well_formed h v" by simp
  from reserve_wf [OF w r_reserve.hyps(2)] r_reserve.IH show ?case by simp
next
  case (r_shrink_to_fit h v h' v')
  from r_shrink_to_fit.IH have w: "well_formed h v" by simp
  from shrink_to_fit_wf [OF w r_shrink_to_fit.hyps(2)] r_shrink_to_fit.IH show ?case by simp
next
  case (r_swap h v other v' other')
  from r_swap.hyps(3) have f: "first v' = first other" "last_ptr v' = last_ptr other"
    "end_ptr v' = end_ptr other"
    by (auto simp: swap_vec_def)
  from wf_fields [OF f, of h] all_live_fields [OF f(1), of h] r_swap.IH show ?case by simp
next
  case (r_swapped h v other v' other')
  from r_swapped.hyps(3) have f: "first other' = first v" "last_ptr other' = last_ptr v"
    "end_ptr other' = end_ptr v"
    by (auto simp: swap_vec_def)
  from wf_fields [OF f, of h] all_live_fields [OF f(1), of h] r_swapped.IH show ?case by simp
next
  case (r_frame h v h')
  from wf_block_cong [OF r_frame.hyps(2)] all_live_block_cong [OF r_frame.hyps(2)] r_frame.IH
  show ?case by simp
qed

text \<open>
  C4, as the code has it. In every reachable state the three pointers are consistent (and
  for a trivially destructible \<open>T\<close> every slot of the buffer is live); an absent buffer
  (a null \<open>first\<close>) comes with capacity 0 and length 0; and a container of capacity 0 has
  no buffer or has a buffer of zero slots. The buffer is absent after default construction
  and in the source of a move. Construction with count 0 returns a container on an array
  of zero slots, and so does \<open>shrink_to_fit\<close> on an empty container of positive capacity
  whose slots are all live, hence in every such state of a trivially destructible \<open>T\<close>;
  with a destroyed slot in the buffer that call is undefined, as \<open>reserve\<close> is.
\<close>

theorem capacity_zero_buffer:
  assumes "reachable triv dflt h v"
  shows "well_formed h v \<and> (triv \<longrightarrow> all_live h v) \<and>
     (first v = Null \<longrightarrow> capacity v = Inr 0 \<and> size_vec v = Inr 0) \<and>
     (capacity v = Inr 0 \<longrightarrow>
        first v = Null \<or> (\<exists>b. first v = Ptr b 0 \<and> block h b = Some [])) \<and>
     first vector_default = Null \<and>
     first (snd (vector_move w)) = Null \<and>
     vector_fill dflt h 0 x =
       Inr (h @ [Some []],
            \<lparr>first = Ptr (length h) 0, last_ptr = Ptr (length h) 0, end_ptr = Ptr (length h) 0\<rparr>) \<and>
     (size_vec v = Inr 0 \<and> (\<exists>c. capacity v = Inr c \<and> 0 < c) \<and> all_live h v \<longrightarrow>
        (\<exists>h' v'. shrink_to_fit dflt h v = Inr (h', v') \<and> capacity v' = Inr 0 \<and>
           first v' = Ptr (length h) 0 \<and> block h' (length h) = Some [])) \<and>
     (size_vec v = Inr 0 \<and> (\<exists>c. capacity v = Inr c \<and> 0 < c) \<and> \<not> all_live h v \<longrightarrow>
        shrink_to_fit dflt h v = Inl Undefined_behaviour) \<and>
     (triv \<and> size_vec v = Inr 0 \<and> (\<exists>c. capacity v = Inr c \<and> 0 < c) \<longrightarrow>
        (\<exists>h' v'. shrink_to_fit dflt h v = Inr (h', v') \<and> capacity v' = Inr 0 \<and>
           first v' = Ptr (length h) 0 \<and> block h' (length h) = Some []))"
proof -
  from reachable_inv [OF assms] have w: "well_formed h v" and l: "triv \<longrightarrow> all_live h v"
    by simp_all
  have a: "first v = Null \<longrightarrow> capacity v = Inr 0 \<and> size_vec v = Inr 0"
    using w by (cases rule: wf_cases) (simp_all add: null_view)
  have b: "capacity v = Inr 0 \<longrightarrow>
        first v = Null \<or> (\<exists>b. first v = Ptr b 0 \<and> block h b = Some [])"
    using w by (cases rule: wf_cases) (simp_all add: buf_view)
  have c: "first vector_default = Null" "first (snd (vector_move w)) = Null"
    by (simp_all add: vector_default_def vector_move_def)
  have d: "vector_fill dflt h 0 x =
       Inr (h @ [Some []],
            \<lparr>first = Ptr (length h) 0, last_ptr = Ptr (length h) 0, end_ptr = Ptr (length h) 0\<rparr>)"
    by (simp add: vector_fill_result)
  have s: "shrink_to_fit dflt h v = reallocate dflt h v 0 \<and> elems h v = []"
    if "size_vec v = Inr 0" "\<exists>c. capacity v = Inr c \<and> 0 < c"
    using that wf_size_elems [OF w] by (auto simp: shrink_to_fit_def and_then_def)
  have e: "\<exists>h' v'. shrink_to_fit dflt h v = Inr (h', v') \<and> capacity v' = Inr 0 \<and>
           first v' = Ptr (length h) 0 \<and> block h' (length h) = Some []"
    if "size_vec v = Inr 0 \<and> (\<exists>c. capacity v = Inr c \<and> 0 < c) \<and> all_live h v"
  proof -
    from that s have r: "shrink_to_fit dflt h v = reallocate dflt h v 0" "elems h v = []"
      and al: "all_live h v"
      by simp_all
    from r(2) have "length (elems h v) \<le> 0" by simp
    from reallocate_wf [OF w al this, of dflt] obtain h' v' where
      n: "reallocate dflt h v 0 = Inr (h', v')" "well_formed h' v'" "capacity v' = Inr 0"
        "first v' = Ptr (length h) 0"
      by blast
    from n(2) have "block h' (length h) = Some []"
    proof (cases rule: wf_cases)
      case null
      with n(4) show ?thesis by simp
    next
      case (buf b ys zs)
      with n(3) have "ys = []" "zs = []" by (simp_all add: capacity_def)
      with buf n(4) show ?thesis by simp
    qed
    with n r(1) show ?thesis by simp
  qed
  have f: "shrink_to_fit dflt h v = Inl Undefined_behaviour"
    if "size_vec v = Inr 0 \<and> (\<exists>c. capacity v = Inr c \<and> 0 < c) \<and> \<not> all_live h v"
  proof -
    from that s have r: "shrink_to_fit dflt h v = reallocate dflt h v 0" "elems h v = []"
      and al: "\<not> all_live h v"
      by simp_all
    from r(2) have "length (elems h v) \<le> 0" by simp
    from reallocate_dead [OF w al this, of dflt] r(1) show ?thesis by simp
  qed
  have g: "\<exists>h' v'. shrink_to_fit dflt h v = Inr (h', v') \<and> capacity v' = Inr 0 \<and>
           first v' = Ptr (length h) 0 \<and> block h' (length h) = Some []"
    if "triv \<and> size_vec v = Inr 0 \<and> (\<exists>c. capacity v = Inr c \<and> 0 < c)"
    using that l by (intro e) simp
  from w l a b c d e f g show ?thesis by blast
qed

theorem capacity_zero_buffer_witness:
  "reachable True (0 :: nat) [Some [Live 10, Live 20]]
     \<lparr>first = Ptr 0 0, last_ptr = Ptr 0 2, end_ptr = Ptr 0 2\<rparr> \<and>
   well_formed [Some [Live 10, Live (20 :: nat)]]
     \<lparr>first = Ptr 0 0, last_ptr = Ptr 0 2, end_ptr = Ptr 0 2\<rparr> \<and>
   all_live [Some [Live 10, Live (20 :: nat)]]
     \<lparr>first = Ptr 0 0, last_ptr = Ptr 0 2, end_ptr = Ptr 0 2\<rparr> \<and>
   reachable True (0 :: nat) [] vector_default \<and>
   capacity vector_default = Inr 0 \<and> first vector_default = Null \<and>
   reachable True (0 :: nat) [Some [Live 7]]
     \<lparr>first = Ptr 0 0, last_ptr = Ptr 0 0, end_ptr = Ptr 0 1\<rparr> \<and>
   shrink_to_fit (0 :: nat) [Some [Live 7]]
     \<lparr>first = Ptr 0 0, last_ptr = Ptr 0 0, end_ptr = Ptr 0 1\<rparr> =
     Inr ([None, Some []], \<lparr>first = Ptr 1 0, last_ptr = Ptr 1 0, end_ptr = Ptr 1 0\<rparr>) \<and>
   reachable False (0 :: nat) [Some [Dead]]
     \<lparr>first = Ptr 0 0, last_ptr = Ptr 0 0, end_ptr = Ptr 0 1\<rparr> \<and>
   shrink_to_fit (0 :: nat) [Some [Dead]]
     \<lparr>first = Ptr 0 0, last_ptr = Ptr 0 0, end_ptr = Ptr 0 1\<rparr> = Inl Undefined_behaviour"
proof -
  let ?e = "\<lparr>first = Ptr 0 0, last_ptr = Ptr 0 0, end_ptr = Ptr 0 1\<rparr>"
  have "vector_init (0 :: nat) [] [10, 20] =
      Inr ([Some [Live 10, Live 20]], \<lparr>first = Ptr 0 0, last_ptr = Ptr 0 2, end_ptr = Ptr 0 2\<rparr>)"
    by (simp add: vector_init_result)
  then have r: "reachable True (0 :: nat) [Some [Live 10, Live 20]]
      \<lparr>first = Ptr 0 0, last_ptr = Ptr 0 2, end_ptr = Ptr 0 2\<rparr>"
    by (rule r_init)
  have d: "reachable True (0 :: nat) [] vector_default"
    by (rule r_default)
  have f: "vector_fill (0 :: nat) [] 1 7 =
     Inr ([Some [Live 7]], \<lparr>first = Ptr 0 0, last_ptr = Ptr 0 1, end_ptr = Ptr 0 1\<rparr>)"
    by (simp add: vector_fill_result)
  have pt: "pop_back True [Some [Live (7 :: nat)]]
      \<lparr>first = Ptr 0 0, last_ptr = Ptr 0 1, end_ptr = Ptr 0 1\<rparr> = Inr ([Some [Live 7]], ?e)"
    and pf: "pop_back False [Some [Live (7 :: nat)]]
      \<lparr>first = Ptr 0 0, last_ptr = Ptr 0 1, end_ptr = Ptr 0 1\<rparr> = Inr ([Some [Dead]], ?e)"
    by code_simp+
  from f have "reachable True (0 :: nat) [Some [Live 7]]
      \<lparr>first = Ptr 0 0, last_ptr = Ptr 0 1, end_ptr = Ptr 0 1\<rparr>"
    by (rule r_fill)
  from this pt have rt: "reachable True (0 :: nat) [Some [Live 7]] ?e"
    by (rule r_pop_back)
  from f have "reachable False (0 :: nat) [Some [Live 7]]
      \<lparr>first = Ptr 0 0, last_ptr = Ptr 0 1, end_ptr = Ptr 0 1\<rparr>"
    by (rule r_fill)
  from this pf have rf: "reachable False (0 :: nat) [Some [Dead]] ?e"
    by (rule r_pop_back)
  have c: "size_vec ?e = Inr 0" "capacity ?e = Inr 1"
    by (simp_all add: size_vec_def capacity_def)
  have nl: "\<not> all_live [Some [Dead :: nat slot]] ?e"
    by (simp add: all_live_def block_def)
  have st: "shrink_to_fit (0 :: nat) [Some [Live 7]] ?e =
     Inr ([None, Some []], \<lparr>first = Ptr 1 0, last_ptr = Ptr 1 0, end_ptr = Ptr 1 0\<rparr>)"
    by code_simp
  from capacity_zero_buffer [OF r] capacity_zero_buffer [OF d] capacity_zero_buffer [OF rt]
    capacity_zero_buffer [OF rf] r d rt rf c nl st
  show ?thesis
    by (simp add: vector_default_def)
qed

text \<open>
  States of capacity 0 that hold a buffer: \<open>vector<T> v(0, 7)\<close>, and (for a trivially
  destructible \<open>T\<close>) \<open>vector<T> v(1, 7); v.pop_back(); v.shrink_to_fit();\<close>. In both
  \<open>first\<close> is the non-null pointer to an array of zero slots.
\<close>

theorem capacity_zero_buffer_present:
  "vector_fill (0 :: nat) [] 0 7 =
     Inr ([Some []], \<lparr>first = Ptr 0 0, last_ptr = Ptr 0 0, end_ptr = Ptr 0 0\<rparr>) \<and>
   reachable True (0 :: nat) [Some []] \<lparr>first = Ptr 0 0, last_ptr = Ptr 0 0, end_ptr = Ptr 0 0\<rparr> \<and>
   capacity \<lparr>first = Ptr 0 0, last_ptr = Ptr 0 0, end_ptr = Ptr 0 0\<rparr> = Inr 0 \<and>
   first \<lparr>first = Ptr 0 0, last_ptr = Ptr 0 0, end_ptr = Ptr 0 0\<rparr> \<noteq> Null \<and>
   block [Some ([] :: nat slot list)] 0 = Some [] \<and>
   reachable True (0 :: nat) [Some [Live 7]]
     \<lparr>first = Ptr 0 0, last_ptr = Ptr 0 0, end_ptr = Ptr 0 1\<rparr> \<and>
   size_vec \<lparr>first = Ptr 0 0, last_ptr = Ptr 0 0, end_ptr = Ptr 0 1\<rparr> = Inr 0 \<and>
   shrink_to_fit (0 :: nat) [Some [Live 7]]
     \<lparr>first = Ptr 0 0, last_ptr = Ptr 0 0, end_ptr = Ptr 0 1\<rparr> =
     Inr ([None, Some []], \<lparr>first = Ptr 1 0, last_ptr = Ptr 1 0, end_ptr = Ptr 1 0\<rparr>) \<and>
   reachable True (0 :: nat) [None, Some []]
     \<lparr>first = Ptr 1 0, last_ptr = Ptr 1 0, end_ptr = Ptr 1 0\<rparr> \<and>
   capacity \<lparr>first = Ptr 1 0, last_ptr = Ptr 1 0, end_ptr = Ptr 1 0\<rparr> = Inr 0 \<and>
   first \<lparr>first = Ptr 1 0, last_ptr = Ptr 1 0, end_ptr = Ptr 1 0\<rparr> \<noteq> Null \<and>
   block [None, Some ([] :: nat slot list)] 1 = Some []"
proof -
  have f: "vector_fill (0 :: nat) [] 0 7 =
     Inr ([Some []], \<lparr>first = Ptr 0 0, last_ptr = Ptr 0 0, end_ptr = Ptr 0 0\<rparr>)"
    by (simp add: vector_fill_result)
  then have rf: "reachable True (0 :: nat) [Some []]
      \<lparr>first = Ptr 0 0, last_ptr = Ptr 0 0, end_ptr = Ptr 0 0\<rparr>"
    by (rule r_fill)
  have "vector_fill (0 :: nat) [] 1 7 =
     Inr ([Some [Live 7]], \<lparr>first = Ptr 0 0, last_ptr = Ptr 0 1, end_ptr = Ptr 0 1\<rparr>)"
    by (simp add: vector_fill_result)
  then have "reachable True (0 :: nat) [Some [Live 7]]
      \<lparr>first = Ptr 0 0, last_ptr = Ptr 0 1, end_ptr = Ptr 0 1\<rparr>"
    by (rule r_fill)
  moreover have "pop_back True [Some [Live (7 :: nat)]]
      \<lparr>first = Ptr 0 0, last_ptr = Ptr 0 1, end_ptr = Ptr 0 1\<rparr> =
      Inr ([Some [Live 7]], \<lparr>first = Ptr 0 0, last_ptr = Ptr 0 0, end_ptr = Ptr 0 1\<rparr>)"
    by code_simp
  ultimately have rp: "reachable True (0 :: nat) [Some [Live 7]]
      \<lparr>first = Ptr 0 0, last_ptr = Ptr 0 0, end_ptr = Ptr 0 1\<rparr>"
    by (rule r_pop_back)
  have s: "shrink_to_fit (0 :: nat) [Some [Live 7]]
      \<lparr>first = Ptr 0 0, last_ptr = Ptr 0 0, end_ptr = Ptr 0 1\<rparr> =
     Inr ([None, Some []], \<lparr>first = Ptr 1 0, last_ptr = Ptr 1 0, end_ptr = Ptr 1 0\<rparr>)"
    by code_simp
  from rp s have rs: "reachable True (0 :: nat) [None, Some []]
      \<lparr>first = Ptr 1 0, last_ptr = Ptr 1 0, end_ptr = Ptr 1 0\<rparr>"
    by (rule r_shrink_to_fit)
  from f rf rp s rs show ?thesis
    by (simp add: capacity_def size_vec_def block_def)
qed

end
